theory Spec2Isabelle
  imports Main "HOL-Library.Multiset" "HOL-Library.Product_Lexorder"
begin

section \<open>Conventions\<close>

text \<open>
  A shallow embedding of the Mixminion server core: \<^verbatim>\<open>ServerInfo.py\<close> (descriptors),
  \<^verbatim>\<open>server/ServerKeys.py\<close> (the keyring) and \<^verbatim>\<open>server/ServerMain.py\<close> (mix pool and
  scheduler).

  Times are seconds since the epoch, as Python integers (\<open>int\<close>): the parsed
  \<^verbatim>\<open>Valid-After\<close>, \<^verbatim>\<open>Valid-Until\<close> and \<^verbatim>\<open>Published\<close> values are integers, and a
  clock reading is taken at a whole second. Python 2 strings are byte strings
  (\<open>string\<close>). A Python exception is the \<open>Inl\<close> side of a sum.
\<close>

type_synonym time = int

datatype error =
    ConfigError string
  | TypeError
  | KeyError
  | AttributeError
  | IOError
  | ZeroDivisionError
  | AssertionError

section \<open>Server descriptors (ServerInfo.py)\<close>

subsection \<open>The parsed descriptor\<close>

text \<open>
  \<^verbatim>\<open>self['Server']\<close>: the entries of the \<^verbatim>\<open>[Server]\<close> section that the code below
  reads. A key is an RSA key; only \<^verbatim>\<open>get_modulus_bytes()\<close> is read from it. An
  \<^verbatim>\<open>ALLOW\<close> entry that the file leaves out is \<^verbatim>\<open>None\<close>.
\<close>

record server_section =
  descriptorVersion :: string
  digest :: string
  identityModulusBytes :: int
  signature :: string
  published :: time
  validAfter :: time
  validUntil :: time
  contact :: "string option"
  comments :: "string option"
  contactFingerprint :: "string option"
  packetKeyModulusBytes :: int

text \<open>\<^verbatim>\<open>self['Incoming/MMTP']\<close> and \<^verbatim>\<open>self['Outgoing/MMTP']\<close>, when the section is there.\<close>

record incoming_section =
  inVersion :: string
  inKeyDigest :: "string option"
  inIP :: "string option"
  inHostname :: "string option"

record outgoing_section =
  outVersion :: string

text \<open>A section that the descriptor does not have is the empty dict, here \<open>None\<close>.\<close>

record serverinfo =
  server :: server_section
  incomingMMTP :: "incoming_section option"
  outgoingMMTP :: "outgoing_section option"

subsection \<open>Validity interval\<close>

text \<open>
  \<^verbatim>\<open>
  def isExpiredAt(self, when):
      return self['Server']['Valid-Until'] < when
  def isValidAt(self, when):
      return (self['Server']['Valid-After'] <= when <=
              self['Server']['Valid-Until'])
  \<close>
\<close>

definition isExpiredAt :: "serverinfo \<Rightarrow> time \<Rightarrow> bool" where
  "isExpiredAt self when = (validUntil (server self) < when)"

definition isValidAt :: "serverinfo \<Rightarrow> time \<Rightarrow> bool" where
  "isValidAt self when =
     (validAfter (server self) \<le> when \<and> when \<le> validUntil (server self))"

subsection \<open>Validation\<close>

text \<open>
  \<^verbatim>\<open>
  MAX_CONTACT = 256
  MAX_COMMENTS = 1024
  MAX_FINGERPRINT = 128
  MIN_IDENTITY_BYTES = 2048 >> 3
  MAX_IDENTITY_BYTES = 4096 >> 3
  PACKET_KEY_BYTES = 2048 >> 3
  \<close>
\<close>

definition MAX_CONTACT :: nat where "MAX_CONTACT = 256"
definition MAX_COMMENTS :: nat where "MAX_COMMENTS = 1024"
definition MAX_FINGERPRINT :: nat where "MAX_FINGERPRINT = 128"
definition MIN_IDENTITY_BYTES :: int where "MIN_IDENTITY_BYTES = 2048 div 2 ^ 3"
definition MAX_IDENTITY_BYTES :: int where "MAX_IDENTITY_BYTES = 4096 div 2 ^ 3"
definition PACKET_KEY_BYTES :: int where "PACKET_KEY_BYTES = 2048 div 2 ^ 3"

text \<open>
  Modelled from the spec: \<^verbatim>\<open>DIGEST_LEN\<close> of \<^verbatim>\<open>mixminion.Crypto\<close>, which is not among the
  sources. The digests are SHA-1 digests, 20 bytes long.
\<close>

definition DIGEST_LEN :: nat where "DIGEST_LEN = 20"

text \<open>
  Python's truth value of an entry that is \<^verbatim>\<open>None\<close> or a string: \<^verbatim>\<open>None\<close> and the empty
  string are false.
\<close>

definition truthy :: "string option \<Rightarrow> bool" where
  "truthy v = (case v of None \<Rightarrow> False | Some s \<Rightarrow> s \<noteq> [])"

text \<open>\<^verbatim>\<open>v and len(v) > n\<close>\<close>

definition longer_than :: "string option \<Rightarrow> nat \<Rightarrow> bool" where
  "longer_than v n = (case v of None \<Rightarrow> False | Some s \<Rightarrow> s \<noteq> [] \<and> length s > n)"

text \<open>
  \<^verbatim>\<open>self._validatedDigests and self._validatedDigests.has_key(digest)\<close>: the dict of
  validated digests is \<^verbatim>\<open>None\<close> or the list of its keys.
\<close>

definition already_validated :: "string list option \<Rightarrow> string \<Rightarrow> bool" where
  "already_validated validatedDigests d =
     (case validatedDigests of None \<Rightarrow> False | Some ds \<Rightarrow> ds \<noteq> [] \<and> d \<in> set ds)"

text \<open>
  \<^verbatim>\<open>ServerInfo.validate(self, lines, contents)\<close>. The cryptography is outside the
  sources and comes in as arguments: \<open>computedDigest\<close> is
  \<^verbatim>\<open>getServerInfoDigest(contents)\<close>, and \<open>signedDigest\<close> is the result of
  \<^verbatim>\<open>pk_check_signature(server['Signature'], identityKey)\<close>, \<open>None\<close> when it raises
  \<^verbatim>\<open>CryptoError\<close>. \<open>now\<close> is \<^verbatim>\<open>time.time()\<close>. A normal return is \<open>Inr ()\<close> (the
  descriptor is then marked as validated).

  \<^verbatim>\<open>
  server = self['Server']
  if server['Descriptor-Version'] != '0.2':
      raise ConfigError("Unrecognized descriptor version %r" % ...)
  digest = getServerInfoDigest(contents)
  if digest != server['Digest']:
      raise ConfigError("Invalid digest")
  if (self._validatedDigests and
      self._validatedDigests.has_key(digest)):
      self._isValidated = 1
      return
  identityKey = server['Identity']
  identityBytes = identityKey.get_modulus_bytes()
  if not (MIN_IDENTITY_BYTES <= identityBytes <= MAX_IDENTITY_BYTES):
      raise ConfigError("Invalid length on identity key")
  if server['Published'] > time.time() + 600:
      raise ConfigError("Server published in the future")
  if server['Valid-Until'] <= server['Valid-After']:
      raise ConfigError("Server is never valid")
  if server['Contact'] and len(server['Contact']) > MAX_CONTACT:
      raise ConfigError("Contact too long")
  if server['Comments'] and len(server['Comments']) > MAX_COMMENTS:
      raise ConfigError("Comments too long")
  if server['Contact-Fingerprint'] and \
         len(server['Contact-Fingerprint']) > MAX_FINGERPRINT:
      raise ConfigError("Contact-Fingerprint too long")
  packetKeyBytes = server['Packet-Key'].get_modulus_bytes()
  if packetKeyBytes != PACKET_KEY_BYTES:
      raise ConfigError("Invalid length on packet key")
  try:
      signedDigest = pk_check_signature(server['Signature'], identityKey)
  except CryptoError:
      raise ConfigError("Invalid signature")
  if digest != signedDigest:
      raise ConfigError("Signed digest is incorrect")
  inMMTP = self['Incoming/MMTP']
  if inMMTP:
      if inMMTP['Version'] != '0.1':
          raise ConfigError("Unrecognized MMTP descriptor version %s"% ...)
      if len(inMMTP['Key-Digest']) != DIGEST_LEN:
          raise ConfigError("Invalid key digest %s"% ...)
      if not inMMTP['IP'] and not inMMTP['Hostname']:
          raise ConfigError("Incoming/MMTP section has neither IP nor hostname")
  outMMTP = self['Outgoing/MMTP']
  if outMMTP:
      if outMMTP['Version'] != '0.1':
          raise ConfigError("Unrecognized MMTP descriptor version %s"%
                            inMMTP['Version'])
  self._isValidated = 1
  \<close>
  \<^verbatim>\<open>len(None)\<close> raises \<^verbatim>\<open>TypeError\<close>; the message of the last error reads
  \<^verbatim>\<open>inMMTP['Version']\<close>, which raises \<^verbatim>\<open>KeyError\<close> when there is no \<^verbatim>\<open>Incoming/MMTP\<close>
  section. The error messages are kept without their formatted arguments.
\<close>

definition validate ::
  "time \<Rightarrow> string list option \<Rightarrow> string \<Rightarrow> string option \<Rightarrow> serverinfo \<Rightarrow> error + unit" where
  "validate now validatedDigests computedDigest signedDigest self =
     (let srv = server self in
      if descriptorVersion srv \<noteq> ''0.2'' then
        Inl (ConfigError ''Unrecognized descriptor version'')
      else if computedDigest \<noteq> digest srv then Inl (ConfigError ''Invalid digest'')
      else if already_validated validatedDigests computedDigest then Inr ()
      else if \<not> (MIN_IDENTITY_BYTES \<le> identityModulusBytes srv \<and>
                  identityModulusBytes srv \<le> MAX_IDENTITY_BYTES) then
        Inl (ConfigError ''Invalid length on identity key'')
      else if published srv > now + 600 then
        Inl (ConfigError ''Server published in the future'')
      else if validUntil srv \<le> validAfter srv then Inl (ConfigError ''Server is never valid'')
      else if longer_than (contact srv) MAX_CONTACT then Inl (ConfigError ''Contact too long'')
      else if longer_than (comments srv) MAX_COMMENTS then
        Inl (ConfigError ''Comments too long'')
      else if longer_than (contactFingerprint srv) MAX_FINGERPRINT then
        Inl (ConfigError ''Contact-Fingerprint too long'')
      else if packetKeyModulusBytes srv \<noteq> PACKET_KEY_BYTES then
        Inl (ConfigError ''Invalid length on packet key'')
      else
        (case signedDigest of
           None \<Rightarrow> Inl (ConfigError ''Invalid signature'')
         | Some sd \<Rightarrow>
             if computedDigest \<noteq> sd then Inl (ConfigError ''Signed digest is incorrect'')
             else
               (case
                  (case incomingMMTP self of
                     None \<Rightarrow> Inr ()
                   | Some inMMTP \<Rightarrow>
                       if inVersion inMMTP \<noteq> ''0.1'' then
                         Inl (ConfigError ''Unrecognized MMTP descriptor version'')
                       else
                         (case inKeyDigest inMMTP of
                            None \<Rightarrow> Inl TypeError
                          | Some kd \<Rightarrow>
                              if length kd \<noteq> DIGEST_LEN then
                                Inl (ConfigError ''Invalid key digest'')
                              else if \<not> truthy (inIP inMMTP) \<and> \<not> truthy (inHostname inMMTP) then
                                Inl (ConfigError
                                  ''Incoming/MMTP section has neither IP nor hostname'')
                              else Inr ()))
                of
                  Inl e \<Rightarrow> Inl e
                | Inr u \<Rightarrow>
                    (case outgoingMMTP self of
                       None \<Rightarrow> Inr ()
                     | Some outMMTP \<Rightarrow>
                         if outVersion outMMTP \<noteq> ''0.1'' then
                           (case incomingMMTP self of
                              None \<Rightarrow> Inl KeyError
                            | Some inMMTP \<Rightarrow>
                                Inl (ConfigError ''Unrecognized MMTP descriptor version''))
                         else Inr ()))))"

subsection \<open>Canonical form for digests\<close>

abbreviation LF :: char where "LF \<equiv> CHR 0x0A"
abbreviation CR :: char where "CR \<equiv> CHR 0x0D"
abbreviation TAB :: char where "TAB \<equiv> CHR 0x09"

text \<open>The character class \<^verbatim>\<open>[ \t]\<close>.\<close>

definition is_blank :: "char \<Rightarrow> bool" where
  "is_blank c = (c = CHR '' '' \<or> c = TAB)"

text \<open>
  \<^verbatim>\<open>_abnormal_line_ending_re = re.compile(r'\r\n?')\<close> and
  \<^verbatim>\<open>s = _abnormal_line_ending_re.sub("\n", s)\<close>: scanning from the left, a CR together
  with an LF right after it, or a CR alone, becomes one LF.
\<close>

fun sub_abnormal_line_ending :: "string \<Rightarrow> string" where
  "sub_abnormal_line_ending [] = []"
| "sub_abnormal_line_ending (c # s) =
     (if c = CR then
        (case s of
           [] \<Rightarrow> [LF]
         | d # s' \<Rightarrow> if d = LF then LF # sub_abnormal_line_ending s'
                     else LF # sub_abnormal_line_ending s)
      else c # sub_abnormal_line_ending s)"

text \<open>
  \<^verbatim>\<open>_trailing_whitespace_re = re.compile(r'[ \t]+$', re.M)\<close> and
  \<^verbatim>\<open>s = _trailing_whitespace_re.sub("", s)\<close>. At a blank, the greedy \<^verbatim>\<open>[ \t]+\<close> takes
  the whole run of blanks, and \<^verbatim>\<open>$\<close> (multi-line) holds after it at the end of the
  string or before an LF; a shorter run ends before a blank, where \<^verbatim>\<open>$\<close> fails. On a
  match the run is deleted and the scan goes on after it; otherwise the character
  is kept and the scan goes on at the next position.
\<close>

function sub_trailing_whitespace :: "string \<Rightarrow> string" where
  "sub_trailing_whitespace [] = []"
| "sub_trailing_whitespace (c # s) =
     (if is_blank c then
        (case dropWhile is_blank s of
           [] \<Rightarrow> []
         | d # r \<Rightarrow> if d = LF then sub_trailing_whitespace (d # r)
                    else c # sub_trailing_whitespace s)
      else c # sub_trailing_whitespace s)"
  by pat_completeness auto
termination
proof (relation "measure length", goal_cases)
  case 1 show ?case by simp
next
  case (2 c s d r)
  have "length (dropWhile is_blank s) \<le> length s" by (rule length_dropWhile_le)
  with 2 show ?case by simp
next
  case 3 then show ?case by simp
next
  case 4 then show ?case by simp
qed

text \<open>
  \<^verbatim>\<open>_leading_whitespace_re = re.compile(r'^[ \t]+', re.M)\<close> and
  \<^verbatim>\<open>s = _leading_whitespace_re.sub("", s)\<close>. \<open>bol\<close> says that \<^verbatim>\<open>^\<close> (multi-line) holds
  at the position: the start of the string, or right after an LF. The position
  after a deleted run is not the start of a line.
\<close>

function sub_leading_whitespace :: "bool \<Rightarrow> string \<Rightarrow> string" where
  "sub_leading_whitespace bol [] = []"
| "sub_leading_whitespace bol (c # s) =
     (if bol \<and> is_blank c then sub_leading_whitespace False (dropWhile is_blank s)
      else c # sub_leading_whitespace (c = LF) s)"
  by pat_completeness auto
termination
proof (relation "measure (\<lambda>(bol, s). length s)", goal_cases)
  case 1 show ?case by simp
next
  case (2 bol c s)
  have "length (dropWhile is_blank s) \<le> length s" by (rule length_dropWhile_le)
  then show ?case by simp
next
  case 3 then show ?case by simp
qed

text \<open>\<^verbatim>\<open>s.endswith("\n")\<close>\<close>

definition endswith_LF :: "string \<Rightarrow> bool" where
  "endswith_LF s = (s \<noteq> [] \<and> last s = LF)"

text \<open>
  \<^verbatim>\<open>
  def _cleanForDigest(s):
      s = _abnormal_line_ending_re.sub("\n", s)
      s = _trailing_whitespace_re.sub("", s)
      s = _leading_whitespace_re.sub("", s)
      if not s.endswith("\n"):
          s += "\n"
      return s
  \<close>
\<close>

definition cleanForDigest :: "string \<Rightarrow> string" where
  "cleanForDigest s0 =
     (let s1 = sub_abnormal_line_ending s0;
          s2 = sub_trailing_whitespace s1;
          s3 = sub_leading_whitespace True s2
      in if \<not> endswith_LF s3 then s3 @ [LF] else s3)"

section \<open>The keyring (server/ServerKeys.py)\<close>

text \<open>
  A \<^verbatim>\<open>ServerKeyset\<close>. Its name \<^verbatim>\<open>NNNN\<close> is the decimal form of a number
  (\<^verbatim>\<open>"%04d" % keynum\<close>, read back with \<^verbatim>\<open>int(keysetname)\<close>); the model keeps the number.
  \<open>publishedFile\<close> is what the \<^verbatim>\<open>published\<close> marker file holds (the time of
  publication) when it is there, \<open>publishedFlag\<close> is the object's \<^verbatim>\<open>published\<close> field.
\<close>

record keyset =
  keynum :: int
  publishedFile :: "time option"
  publishedFlag :: bool

text \<open>
  The fields of \<^verbatim>\<open>ServerKeyring\<close>: \<^verbatim>\<open>keySets\<close> is the sorted list of
  \<^verbatim>\<open>(start, end, keyset)\<close>, \<^verbatim>\<open>keyRange\<close> is \<^verbatim>\<open>(firstKey, lastKey)\<close>, \<^verbatim>\<open>keyOverlap\<close> the
  configured \<^verbatim>\<open>PublicKeyOverlap\<close> in seconds, \<^verbatim>\<open>publicKeyLifetime\<close> the configured
  \<^verbatim>\<open>PublicKeyLifetime\<close> in seconds.
\<close>

record keyring =
  keySets :: "(time \<times> time \<times> keyset) list"
  keyRange :: "int \<times> int"
  keyOverlap :: int
  publicKeyLifetime :: int

subsection \<open>Live keys\<close>

text \<open>
  \<^verbatim>\<open>
  def _getLiveKeys(self, now=None):
      if not self.keySets:
          return []
      if now is None:
          now = time.time()
      cutoff = now-self.keyOverlap
      return [ (va,vu,k) for (va,vu,k) in self.keySets
               if va < now and vu > cutoff ]
  \<close>
  The clock is the first argument; \<open>now\<close> is the optional argument.
\<close>

definition getLiveKeys :: "time \<Rightarrow> keyring \<Rightarrow> time option \<Rightarrow> (time \<times> time \<times> keyset) list" where
  "getLiveKeys clock self now_opt =
     (if keySets self = [] then []
      else
        let now = (case now_opt of None \<Rightarrow> clock | Some t \<Rightarrow> t);
            cutoff = now - keyOverlap self
        in filter (\<lambda>(va, vu, k). va < now \<and> vu > cutoff) (keySets self))"

subsection \<open>Publication\<close>

text \<open>The three results of \<^verbatim>\<open>ServerKeyset.publish\<close>: \<^verbatim>\<open>'accept'\<close>, \<^verbatim>\<open>'reject'\<close>, \<^verbatim>\<open>'error'\<close>.\<close>

datatype publish_status = Accept | Reject | Error

text \<open>
  What \<^verbatim>\<open>urllib2.urlopen(url, fields)\<close>, \<^verbatim>\<open>f.info()\<close> and \<^verbatim>\<open>f.read()\<close> give: an exception,
  or the \<^verbatim>\<open>Content-Type\<close> header (\<open>None\<close> when the reply has none) and the body.
\<close>

datatype http_reply = NetworkFailure | Reply "string option" string

text \<open>\<open>s\<close> without its prefix \<open>p\<close>, when \<open>s\<close> starts with \<open>p\<close>.\<close>

definition strip_prefix :: "string \<Rightarrow> string \<Rightarrow> string option" where
  "strip_prefix p s = (if take (length p) s = p then Some (drop (length p) s) else None)"

text \<open>
  \<^verbatim>\<open>DIRECTORY_RESPONSE_RE = re.compile(r'^Status: (0|1)[ \t]*\nMessage: (.*)$', re.M)\<close>.
  A match attempt at a position where \<^verbatim>\<open>^\<close> holds gives the groups 1 and 2: the
  greedy \<^verbatim>\<open>[ \t]*\<close> must be followed by an LF, and \<^verbatim>\<open>(.*)$\<close> takes the rest of the line.
\<close>

definition DIRECTORY_RESPONSE_RE_match :: "string \<Rightarrow> (char \<times> string) option" where
  "DIRECTORY_RESPONSE_RE_match s =
     (case strip_prefix ''Status: '' s of
        None \<Rightarrow> None
      | Some r1 \<Rightarrow>
          (case r1 of
             [] \<Rightarrow> None
           | g1 # r2 \<Rightarrow>
               if g1 = CHR ''0'' \<or> g1 = CHR ''1'' then
                 (case dropWhile is_blank r2 of
                    [] \<Rightarrow> None
                  | d # r3 \<Rightarrow>
                      if d = LF then
                        (case strip_prefix ''Message: '' r3 of
                           None \<Rightarrow> None
                         | Some r4 \<Rightarrow> Some (g1, takeWhile (\<lambda>c. c \<noteq> LF) r4))
                      else None)
               else None))"

text \<open>
  \<^verbatim>\<open>DIRECTORY_RESPONSE_RE.search(reply)\<close>: the leftmost match. \<open>bol\<close> says that \<^verbatim>\<open>^\<close> holds
  at the position (the start of the reply, or right after an LF).
\<close>

fun DIRECTORY_RESPONSE_RE_search_from :: "bool \<Rightarrow> string \<Rightarrow> (char \<times> string) option" where
  "DIRECTORY_RESPONSE_RE_search_from bol [] = None"
| "DIRECTORY_RESPONSE_RE_search_from bol (c # s) =
     (case (if bol then DIRECTORY_RESPONSE_RE_match (c # s) else None) of
        Some m \<Rightarrow> Some m
      | None \<Rightarrow> DIRECTORY_RESPONSE_RE_search_from (c = LF) s)"

definition DIRECTORY_RESPONSE_RE_search :: "string \<Rightarrow> (char \<times> string) option" where
  "DIRECTORY_RESPONSE_RE_search reply = DIRECTORY_RESPONSE_RE_search_from True reply"

text \<open>
  \<^verbatim>\<open>
  def markAsPublished(self):
      f = open(self.publishedFile, 'w')
      try:
          f.write(formatTime(time.time(), 1))
          f.write("\n")
      finally:
          f.close()
      self.published = 1
  \<close>
\<close>

definition markAsPublished :: "time \<Rightarrow> keyset \<Rightarrow> keyset" where
  "markAsPublished clock self = self \<lparr> publishedFile := Some clock, publishedFlag := True \<rparr>"

text \<open>
  \<^verbatim>\<open>
  def publish(self, url):
      ...
      try:
          try:
              f = urllib2.urlopen(url, fields)
              info = f.info()
              reply = f.read()
          except:
              return 'error'
      finally:
          f.close()
      if info.get('Content-Type') != 'text/plain':
          return 'error'
      m = DIRECTORY_RESPONSE_RE.search(reply)
      if not m:
          return 'error'
      ok = int(m.group(1))
      msg = m.group(2)
      if not ok:
          return 'reject'
      self.markAsPublished()
      return 'accept'
  \<close>
  The descriptor file was read when the keyring was scanned; reading it again is
  taken to succeed, and what is posted does not show in the model: any reply is
  possible. The result is the status and the key set after the call.
\<close>

definition publish :: "time \<Rightarrow> http_reply \<Rightarrow> keyset \<Rightarrow> publish_status \<times> keyset" where
  "publish clock reply self =
     (case reply of
        NetworkFailure \<Rightarrow> (Error, self)
      | Reply contentType body \<Rightarrow>
          if contentType \<noteq> Some ''text/plain'' then (Error, self)
          else
            (case DIRECTORY_RESPONSE_RE_search body of
               None \<Rightarrow> (Error, self)
             | Some (g1, msg) \<Rightarrow>
                 let ok = (if g1 = CHR ''1'' then 1 else 0 :: int) in
                 if ok = 0 then (Reject, self)
                 else (Accept, markAsPublished clock self)))"


text \<open>
  The loop of \<^verbatim>\<open>publishKeys\<close>. \<open>directory i\<close> is the reply to request number \<open>i\<close> of the
  batch. The result is the key sets after the loop and, unless the loop gave up on
  an error (\<open>None\<close>), the number of rejections.
  \<^verbatim>\<open>
  rejected = 0
  for ks in keySets:
      status = ks.publish(DIRECTORY_UPLOAD_URL)
      if status == 'error':
          LOG.info("Error publishing a key; giving up")
          return 0
      elif status == 'reject':
          rejected += 1
      else:
          assert status == 'accept'
  \<close>
\<close>

fun publishKeys_loop ::
  "time \<Rightarrow> (nat \<Rightarrow> http_reply) \<Rightarrow> nat \<Rightarrow> nat \<Rightarrow> keyset list \<Rightarrow> keyset list \<times> nat option" where
  "publishKeys_loop clock directory i rejected [] = ([], Some rejected)"
| "publishKeys_loop clock directory i rejected (ks # rest) =
     (case publish clock (directory i) ks of
        (Error, ks') \<Rightarrow> (ks' # rest, None)
      | (Reject, ks') \<Rightarrow>
          (case publishKeys_loop clock directory (Suc i) (rejected + 1) rest of
             (rest', r) \<Rightarrow> (ks' # rest', r))
      | (Accept, ks') \<Rightarrow>
          (case publishKeys_loop clock directory (Suc i) rejected rest of
             (rest', r) \<Rightarrow> (ks' # rest', r)))"

text \<open>
  \<^verbatim>\<open>
  def publishKeys(self, allKeys=0):
      keySets = [ ks for _, _, ks in self.keySets ]
      if allKeys:
          LOG.info("Republishing all known keys to directory server")
      else:
          keySets = [ ks for ks in keySets if not ks.isPublished() ]
          if not keySets:
              return
      (the loop)
      if rejected == 0:
          return 1
      else:
          LOG.info("%s/%s keys were rejected." , rejected, len(keySets))
          return 0
  \<close>
  The result is the key sets gone through, as the call leaves them, and the value
  returned (\<open>None\<close> for the plain \<^verbatim>\<open>return\<close>).
\<close>

definition publishKeys ::
  "time \<Rightarrow> (nat \<Rightarrow> http_reply) \<Rightarrow> bool \<Rightarrow> keyring \<Rightarrow> keyset list \<times> int option" where
  "publishKeys clock directory allKeys self =
     (let keySets0 = map (\<lambda>(va, vu, ks). ks) (keySets self);
          keySets1 = (if allKeys then keySets0
                      else filter (\<lambda>ks. \<not> publishedFlag ks) keySets0)
      in if \<not> allKeys \<and> keySets1 = [] then (keySets1, None)
         else
           (case publishKeys_loop clock directory 0 0 keySets1 of
              (kss, None) \<Rightarrow> (kss, Some 0)
            | (kss, Some rejected) \<Rightarrow>
                if rejected = 0 then (kss, Some 1) else (kss, Some 0)))"

subsection \<open>Key generation\<close>

text \<open>
  \<^verbatim>\<open>
  PUBLICATION_LATENCY = 3*24*60*60
  PREPUBLICATION_INTERVAL = 14*24*60*60
  \<close>
\<close>

definition PUBLICATION_LATENCY :: int where
  "PUBLICATION_LATENCY = 3*24*60*60"

definition PREPUBLICATION_INTERVAL :: int where
  "PREPUBLICATION_INTERVAL = 14*24*60*60"

text \<open>
  \<^verbatim>\<open>sys.maxint\<close>, the value of \<^verbatim>\<open>firstKey\<close> while no key is known (here that of a
  32-bit build; a 64-bit build has \<open>2 ^ 63 - 1\<close>). The code only compares \<^verbatim>\<open>firstKey\<close>
  with it, as the mark of an empty key directory.
\<close>

definition sys_maxint :: int where
  "sys_maxint = 2 ^ 31 - 1"

text \<open>
  Modelled from the spec: \<^verbatim>\<open>previousMidnight\<close> of \<^verbatim>\<open>mixminion.Common\<close>, which is not among
  the sources. The spec: the slot start is rounded down to the previous UTC
  midnight.
\<close>

definition previousMidnight :: "time \<Rightarrow> time" where
  "previousMidnight when = when - when mod 86400"

text \<open>
  Modelled from the spec: \<^verbatim>\<open>ceilDiv\<close> of \<^verbatim>\<open>mixminion.Common\<close>, which is not among the
  sources. The spec counts \<open>\<lceil>14d / 7d\<rceil> = 2\<close> key sets: the quotient rounded up, on
  integers; a zero divisor raises \<^verbatim>\<open>ZeroDivisionError\<close>.
\<close>

definition ceilDiv :: "int \<Rightarrow> int \<Rightarrow> error + int" where
  "ceilDiv a b = (if b = 0 then Inl ZeroDivisionError else Inr ((a - 1) div b + 1))"

text \<open>
  \<^verbatim>\<open>checkKeys\<close> scans the key directory anew: \<open>disk\<close> is what it finds there, each key
  set with the validity interval \<^verbatim>\<open>keyset.getLiveness()\<close> of its descriptor.
  \<^verbatim>\<open>
  self.keySets = []
  firstKey = sys.maxint
  lastKey = 0
  for dirname in os.listdir(self.keyDir):
      ...
      setNum = int(keysetname)
      if setNum < firstKey: firstKey = setNum
      if setNum > lastKey: lastKey = setNum
      ...
      t1, t2 = keyset.getLiveness()
      self.keySets.append( (t1, t2, keyset) )
  self.keySets.sort()
  self.keyRange = (firstKey, lastKey)
  \<close>
  The tuples are sorted by \<open>(t1, t2)\<close>; between two key sets with the same interval
  Python compares the objects, and the model keeps the order of the scan.
\<close>

definition entry_key :: "time \<times> time \<times> keyset \<Rightarrow> time \<times> time" where
  "entry_key e = (fst e, fst (snd e))"

definition checkKeys :: "(time \<times> time \<times> keyset) list \<Rightarrow> keyring \<Rightarrow> keyring" where
  "checkKeys disk self =
     self \<lparr> keySets := sort_key entry_key disk,
            keyRange := (fold (\<lambda>(t1, t2, ks) firstKey. if keynum ks < firstKey then keynum ks else firstKey)
                           disk sys_maxint,
                         fold (\<lambda>(t1, t2, ks) lastKey. if keynum ks > lastKey then keynum ks else lastKey)
                           disk 0) \<rparr>"

text \<open>
  \<^verbatim>\<open>
  def getNextKeygen(self):
      if not self.keySets:
          return -1
      lastExpiry = self.keySets[-1][1]
      nextKeygen = lastExpiry - PUBLICATION_LATENCY
      return nextKeygen
  \<close>
\<close>

definition getNextKeygen :: "keyring \<Rightarrow> time" where
  "getNextKeygen self =
     (if keySets self = [] then - 1
      else
        let lastExpiry = fst (snd (last (keySets self)));
            nextKeygen = lastExpiry - PUBLICATION_LATENCY
        in nextKeygen)"

text \<open>
  \<^verbatim>\<open>generateServerDescriptorAndKeys(config, identityKey, keydir, keyname, hashdir,
  validAt)\<close>, as far as the new key set and its validity interval go (the keys,
  the certificates and the signed descriptor text are outside the model):
  \<^verbatim>\<open>
  if not now:
      now = time.time()
  if not validAt:
      validAt = now
  validAt = mixminion.Common.previousMidnight(validAt+30)
  validUntil = validAt + config['Server']['PublicKeyLifetime'].getSeconds()
  \<close>
  The interval is written into the descriptor as two dates, and read back by
  \<^verbatim>\<open>getLiveness\<close> as written (both are midnights when the lifetime is a whole number
  of days; with any other lifetime the date written drops the time of day of
  \<^verbatim>\<open>validUntil\<close>, which the model keeps). Generating the keys and writing the files
  are taken to succeed.
\<close>

definition generateServerDescriptorAndKeys ::
  "time \<Rightarrow> int \<Rightarrow> int \<Rightarrow> time \<Rightarrow> time \<times> time \<times> keyset" where
  "generateServerDescriptorAndKeys clock lifetime keynum0 validAt0 =
     (let now = clock;
          validAt1 = (if validAt0 = 0 then now else validAt0);
          validAt = previousMidnight (validAt1 + 30);
          validUntil = validAt + lifetime
      in (validAt, validUntil,
          \<lparr> keynum = keynum0, publishedFile = None, publishedFlag = False \<rparr>))"

text \<open>
  The loop of \<^verbatim>\<open>createKeys\<close>; \<^verbatim>\<open>xrange(num)\<close> is empty for \<open>num \<le> 0\<close>. The result is the
  list of the key sets generated.
  \<^verbatim>\<open>
  for _ in xrange(num):
      if firstKey == sys.maxint:
          keynum = firstKey = lastKey = 1
      elif firstKey > 1:
          firstKey -= 1
          keynum = firstKey
      else:
          lastKey += 1
          keynum = lastKey
      keyname = "%04d" % keynum
      nextStart = startAt + self.config['Server']['PublicKeyLifetime'].getSeconds()
      generateServerDescriptorAndKeys(..., keyname=keyname, ..., validAt=startAt)
      startAt = nextStart
  \<close>
\<close>

fun createKeys_loop ::
  "time \<Rightarrow> int \<Rightarrow> nat \<Rightarrow> time \<Rightarrow> int \<times> int \<Rightarrow> (time \<times> time \<times> keyset) list" where
  "createKeys_loop clock lifetime 0 startAt (firstKey, lastKey) = []"
| "createKeys_loop clock lifetime (Suc n) startAt (firstKey, lastKey) =
     (let (keynum0, firstKey', lastKey') =
            (if firstKey = sys_maxint then (1, 1, 1)
             else if firstKey > 1 then (firstKey - 1, firstKey - 1, lastKey)
             else (lastKey + 1, firstKey, lastKey + 1));
          nextStart = startAt + lifetime
      in generateServerDescriptorAndKeys clock lifetime keynum0 startAt #
         createKeys_loop clock lifetime n nextStart (firstKey', lastKey'))"

text \<open>
  \<^verbatim>\<open>
  def createKeys(self, num=1, startAt=None):
      if startAt is None:
          if self.keySets:
              startAt = self.keySets[-1][1]+60
          else:
              startAt = time.time()+60
      startAt = previousMidnight(startAt)
      firstKey, lastKey = self.keyRange
      (the loop)
      self.checkKeys()
  \<close>
  The key directory holds the key sets of \<^verbatim>\<open>self.keySets\<close> (the index is in step with
  the directory) and, after the loop, the generated ones.
\<close>

definition createKeys :: "time \<Rightarrow> int \<Rightarrow> time option \<Rightarrow> keyring \<Rightarrow> keyring" where
  "createKeys clock num startAt_opt self =
     (let startAt0 =
            (case startAt_opt of
               None \<Rightarrow>
                 if keySets self \<noteq> [] then fst (snd (last (keySets self))) + 60
                 else clock + 60
             | Some t \<Rightarrow> t);
          startAt = previousMidnight startAt0;
          generated = createKeys_loop clock (publicKeyLifetime self) (nat num) startAt (keyRange self)
      in checkKeys (keySets self @ generated) self)"

text \<open>
  \<^verbatim>\<open>
  def createKeysAsNeeded(self,now=None):
      if now is None:
          now = time.time()
      if self.getNextKeygen() > now-10: # 10 seconds of leeway
          return
      if self.keySets:
          lastExpiry = self.keySets[-1][1]
      else:
          lastExpiry = now
      timeToCover = lastExpiry + PREPUBLICATION_INTERVAL - now
      lifetime = self.config['Server']['PublicKeyLifetime'].getSeconds()
      nKeys = ceilDiv(timeToCover, lifetime)
      self.createKeys(num=nKeys)
  \<close>
\<close>

definition createKeysAsNeeded :: "time \<Rightarrow> time option \<Rightarrow> keyring \<Rightarrow> error + keyring" where
  "createKeysAsNeeded clock now_opt self =
     (let now = (case now_opt of None \<Rightarrow> clock | Some t \<Rightarrow> t) in
      if getNextKeygen self > now - 10 then Inr self
      else
        let lastExpiry = (if keySets self \<noteq> [] then fst (snd (last (keySets self))) else now);
            timeToCover = lastExpiry + PREPUBLICATION_INTERVAL - now;
            lifetime = publicKeyLifetime self
        in (case ceilDiv timeToCover lifetime of
              Inl e \<Rightarrow> Inl e
            | Inr nKeys \<Rightarrow> Inr (createKeys clock nKeys None self)))"

section \<open>Mix pool and scheduler (server/ServerMain.py)\<close>

subsection \<open>Packets, actions and the state\<close>

text \<open>
  The objects of the mix pool: instances of \<^verbatim>\<open>DeliveryPacket\<close> or \<^verbatim>\<open>RelayedPacket\<close> (from
  \<^verbatim>\<open>PacketHandler\<close>), or a tuple in the obsolete format that \<^verbatim>\<open>mix\<close> still tests for. A
  handle names an entry of a queue.
\<close>

type_synonym handle = nat

datatype packet =
    ObsoleteTuple string
  | DeliveryPacket string
  | RelayedPacket string

text \<open>
  The calls that the main thread makes on its collaborators, in the order in which
  it makes them: the trace. Of the logging, the messages of the wait loop are kept.
\<close>

datatype action =
    PoolQueueObject packet
  | PoolLock
  | PoolUnlock
  | SyncLogs
  | SyncLogsRaised
  | GetBatch "handle list"
  | QueueDecodedMessage packet
  | QueueDeliveryMessage packet
  | RemoveMessage handle
  | OutgoingSendReady
  | ModulesSendReady
  | TryTimeout time
  | CleanQueues
  | MMTPProcess int
  | LogInfo string
  | LogReset
  | LogFatal string

text \<open>
  The state: the entries of the mix pool's queue with their handles, the next unused
  handle, what has been queued in the outgoing queue and in the module manager, and
  the trace.
\<close>

record server_state =
  pool :: "(handle \<times> packet) list"
  nextHandle :: handle
  outgoing :: "packet list"
  modules :: "packet list"
  trace :: "action list"

text \<open>The action \<open>a\<close> is appended to the trace.\<close>

definition did :: "action \<Rightarrow> server_state \<Rightarrow> server_state" where
  "did a s = s \<lparr> trace := trace s @ [a] \<rparr>"

subsection \<open>The mix pool\<close>

text \<open>
  \<^verbatim>\<open>obj.isDelivery()\<close>: a packet answers; a tuple has no such method, and the call raises
  \<^verbatim>\<open>AttributeError\<close>.
\<close>

definition isDelivery :: "packet \<Rightarrow> error + bool" where
  "isDelivery obj =
     (case obj of
        ObsoleteTuple t \<Rightarrow> Inl AttributeError
      | DeliveryPacket c \<Rightarrow> Inr True
      | RelayedPacket c \<Rightarrow> Inr False)"

text \<open>
  Modelled from the spec: the queue under the mix pool (\<^verbatim>\<open>mixminion.server.ServerQueue\<close>,
  which is not among the sources). The spec: a queue entry is a file holding a
  packet, addressed by a random handle, and \<^verbatim>\<open>removeMessage(handle)\<close> is atomic. An
  object is stored under a handle that is not in use (the model numbers the
  handles); \<^verbatim>\<open>getObject\<close> of a handle that names no entry fails with an \<^verbatim>\<open>IOError\<close>;
  \<^verbatim>\<open>removeMessage\<close> takes the entry of the handle out; \<^verbatim>\<open>count\<close> is the number of entries.
  \<^verbatim>\<open>getBatch\<close>, the choice of the mixing algorithm, is an argument of \<open>mix\<close> below.
\<close>

definition queue_queueObject :: "packet \<Rightarrow> server_state \<Rightarrow> server_state" where
  "queue_queueObject obj s =
     did (PoolQueueObject obj)
       (s \<lparr> pool := pool s @ [(nextHandle s, obj)], nextHandle := Suc (nextHandle s) \<rparr>)"

definition queue_getObject :: "server_state \<Rightarrow> handle \<Rightarrow> error + packet" where
  "queue_getObject s h = (case map_of (pool s) h of None \<Rightarrow> Inl IOError | Some obj \<Rightarrow> Inr obj)"

definition queue_removeMessage :: "handle \<Rightarrow> server_state \<Rightarrow> server_state" where
  "queue_removeMessage h s =
     did (RemoveMessage h) (s \<lparr> pool := filter (\<lambda>(h', obj). h' \<noteq> h) (pool s) \<rparr>)"

definition queue_count :: "server_state \<Rightarrow> nat" where
  "queue_count s = length (pool s)"

text \<open>
  \<^verbatim>\<open>
  def queueObject(self, obj):
      obj.isDelivery() #XXXX003 remove this implicit typecheck.
      self.queue.queueObject(obj)
  \<close>
  The result is the exception, if one is raised, and the state after the call.
\<close>

definition queueObject :: "packet \<Rightarrow> server_state \<Rightarrow> error option \<times> server_state" where
  "queueObject obj s =
     (case isDelivery obj of
        Inl e \<Rightarrow> (Some e, s)
      | Inr b \<Rightarrow> (None, queue_queueObject obj s))"

text \<open>
  \<^verbatim>\<open>self.moduleManager.queueDecodedMessage(packet)\<close> and
  \<^verbatim>\<open>self.outgoingQueue.queueDeliveryMessage(packet)\<close>: the packet is in the queue of the
  module manager, or in the outgoing queue, from then on.
\<close>

definition queueDecodedMessage :: "packet \<Rightarrow> server_state \<Rightarrow> server_state" where
  "queueDecodedMessage packet0 s =
     did (QueueDecodedMessage packet0) (s \<lparr> modules := modules s @ [packet0] \<rparr>)"

definition queueDeliveryMessage :: "packet \<Rightarrow> server_state \<Rightarrow> server_state" where
  "queueDeliveryMessage packet0 s =
     did (QueueDeliveryMessage packet0) (s \<lparr> outgoing := outgoing s @ [packet0] \<rparr>)"

text \<open>
  \<^verbatim>\<open>
  def mix(self):
      if self.queue.count() == 0:
          return
      handles = self.queue.getBatch()
      for h in handles:
          packet = self.queue.getObject(h)
          if type(packet) == type(()):
              LOG.debug("  (skipping message %s in obsolete format)", h)
          elif packet.isDelivery():
              self.moduleManager.queueDecodedMessage(packet)
          else:
              self.outgoingQueue.queueDeliveryMessage(packet)
          self.queue.removeMessage(h)
  \<close>
  \<open>batch\<close> is what \<^verbatim>\<open>getBatch()\<close> returns.
\<close>

fun mix_loop :: "handle list \<Rightarrow> server_state \<Rightarrow> error option \<times> server_state" where
  "mix_loop [] s = (None, s)"
| "mix_loop (h # handles) s =
     (case queue_getObject s h of
        Inl e \<Rightarrow> (Some e, s)
      | Inr packet0 \<Rightarrow>
          let s1 =
                (case packet0 of
                   ObsoleteTuple t \<Rightarrow> s
                 | DeliveryPacket c \<Rightarrow> queueDecodedMessage packet0 s
                 | RelayedPacket c \<Rightarrow> queueDeliveryMessage packet0 s)
          in mix_loop handles (queue_removeMessage h s1))"

definition mix :: "handle list \<Rightarrow> server_state \<Rightarrow> error option \<times> server_state" where
  "mix batch s =
     (if queue_count s = 0 then (None, s)
      else mix_loop batch (did (GetBatch batch) s))"

text \<open>
  A sequence of \<^verbatim>\<open>queueObject\<close> calls and mix ticks. \<^verbatim>\<open>queueObject\<close> is called from
  \<^verbatim>\<open>IncomingQueue.__deliverMessage\<close>, which catches every exception and goes on; an
  exception of \<^verbatim>\<open>mix\<close> leaves \<^verbatim>\<open>MixminionServer.run\<close>, and the sequence ends there.
\<close>

datatype operation = QueueObject packet | MixTick "handle list"

fun run_operations :: "operation list \<Rightarrow> server_state \<Rightarrow> error option \<times> server_state" where
  "run_operations [] s = (None, s)"
| "run_operations (QueueObject obj # ops) s = run_operations ops (snd (queueObject obj s))"
| "run_operations (MixTick batch # ops) s =
     (case mix batch s of
        (Some e, s') \<Rightarrow> (Some e, s')
      | (None, s') \<Rightarrow> run_operations ops s')"

subsection \<open>The scheduler\<close>

text \<open>
  The names of the scheduled events (\<^verbatim>\<open>'TIMEOUT'\<close>, \<^verbatim>\<open>'SHRED'\<close>, \<^verbatim>\<open>'MIX'\<close>, or another string),
  and \<^verbatim>\<open>insort(scheduledEvents, (time, name))\<close>: the tuples are kept sorted by time
  and then by name.
\<close>

datatype event = TIMEOUT | SHRED | MIX | OtherEvent string

definition event_rank :: "event \<Rightarrow> nat" where
  "event_rank e = (case e of MIX \<Rightarrow> 0 | SHRED \<Rightarrow> 1 | TIMEOUT \<Rightarrow> 2 | OtherEvent n \<Rightarrow> 3)"

definition insort_event :: "time \<times> event \<Rightarrow> (time \<times> event) list \<Rightarrow> (time \<times> event) list" where
  "insort_event x scheduledEvents = insort_key (\<lambda>(t, e). (t, event_rank e)) x scheduledEvents"

text \<open>
  What the collaborators do when an event is handled: whether
  \<^verbatim>\<open>packetHandler.syncLogs()\<close> returns (\<open>None\<close>) or raises, the batch that
  \<^verbatim>\<open>getBatch()\<close> chooses, \<^verbatim>\<open>mmtpServer.getNextTimeoutTime(now)\<close>, and the mix interval
  (\<^verbatim>\<open>getNextMixTime(now)\<close> is \<open>now\<close> plus the interval).
\<close>

record event_env =
  syncLogsResult :: "error option"
  chosenBatch :: "handle list"
  nextTimeoutTime :: time
  mixInterval :: time

text \<open>
  The dispatch of \<^verbatim>\<open>MixminionServer.run\<close>, after \<^verbatim>\<open>del scheduledEvents[0]\<close>:
  \<^verbatim>\<open>
  if event == 'TIMEOUT':
      self.mmtpServer.tryTimeout(now)
      insort(scheduledEvents,
             (self.mmtpServer.getNextTimeoutTime(now), "TIMEOUT"))
  elif event == 'SHRED':
      self.cleanQueues()
      insort(scheduledEvents, (now + 600, "SHRED"))
  elif event == 'MIX':
      try:
          self.mixPool.lock()
          self.packetHandler.syncLogs()
          self.mixPool.mix()
      finally:
          self.mixPool.unlock()
      self.outgoingQueue.sendReadyMessages()
      self.moduleManager.sendReadyMessages()
      nextMix = self.mixPool.getNextMixTime(now)
      insort(scheduledEvents, (nextMix, "MIX"))
  else:
      assert event in ("MIX", "SHRED", "TIMEOUT")
  \<close>
  The result is the exception that leaves the handler, if any, the scheduled events
  and the state.
\<close>

definition handleEvent ::
  "event_env \<Rightarrow> event \<Rightarrow> time \<Rightarrow> (time \<times> event) list \<Rightarrow> server_state
     \<Rightarrow> error option \<times> (time \<times> event) list \<times> server_state" where
  "handleEvent env event0 now scheduledEvents s =
     (case event0 of
        TIMEOUT \<Rightarrow>
          (None, insort_event (nextTimeoutTime env, TIMEOUT) scheduledEvents, did (TryTimeout now) s)
      | SHRED \<Rightarrow>
          (None, insort_event (now + 600, SHRED) scheduledEvents, did CleanQueues s)
      | MIX \<Rightarrow>
          (let s1 = did PoolLock s;
               (r, s3) = (case syncLogsResult env of
                            Some e \<Rightarrow> (Some e, did SyncLogsRaised s1)
                          | None \<Rightarrow> mix (chosenBatch env) (did SyncLogs s1));
               s4 = did PoolUnlock s3
           in (case r of
                 Some e \<Rightarrow> (Some e, scheduledEvents, s4)
               | None \<Rightarrow>
                   let s5 = did OutgoingSendReady s4;
                       s6 = did ModulesSendReady s5;
                       nextMix = now + mixInterval env
                   in (None, insort_event (nextMix, MIX) scheduledEvents, s6)))
      | OtherEvent n \<Rightarrow> (Some AssertionError, scheduledEvents, s))"

text \<open>
  What one turn of the wait loop sees after \<^verbatim>\<open>process\<close> returns: the flags \<^verbatim>\<open>STOPPING\<close>
  and \<^verbatim>\<open>GOT_HUP\<close> (set by the signal handlers), whether the three threads are alive,
  and the clock at the end of the turn.
\<close>

record observation =
  obsSTOPPING :: bool
  obsGOT_HUP :: bool
  cleaningAlive :: bool
  processingAlive :: bool
  moduleAlive :: bool
  obsTime :: time

text \<open>
  How the wait loop ends: \<^verbatim>\<open>run\<close> returns after a \<^verbatim>\<open>SIGTERM\<close>; \<^verbatim>\<open>run\<close> returns because a
  thread has halted; the event is due; or the observations are used up and the loop
  is still waiting.
\<close>

datatype wait_exit = ReturnedStopping | ReturnedThreadHalted | EventDue | StillWaiting

text \<open>
  \<^verbatim>\<open>
  timeLeft = nextEventTime - now
  while timeLeft > 0:
      self.mmtpServer.process(2)
      if STOPPING:
          LOG.info("Caught sigterm; shutting down.")
          return
      elif GOT_HUP:
          LOG.info("Caught sighup")
          LOG.info("Resetting logs")
          LOG.reset()
          GOT_HUP = 0
      if not (self.cleaningThread.isAlive() and
              self.processingThread.isAlive() and
              self.moduleManager.thread.isAlive()):
          LOG.fatal("One of our threads has halted; shutting down.")
          return
      now = time.time()
      timeLeft = nextEventTime - now
  \<close>
  The result is how the loop ends, the last clock reading, and the state.
\<close>

fun waitForEvent ::
  "time \<Rightarrow> time \<Rightarrow> observation list \<Rightarrow> server_state \<Rightarrow> wait_exit \<times> time \<times> server_state" where
  "waitForEvent nextEventTime now [] s =
     (if nextEventTime - now > 0 then (StillWaiting, now, s) else (EventDue, now, s))"
| "waitForEvent nextEventTime now (ob # obs) s =
     (let timeLeft = nextEventTime - now in
      if timeLeft > 0 then
        (let s1 = did (MMTPProcess 2) s in
         if obsSTOPPING ob then
           (ReturnedStopping, now, did (LogInfo ''Caught sigterm; shutting down.'') s1)
         else
           let s2 = (if obsGOT_HUP ob
                     then did LogReset (did (LogInfo ''Resetting logs'')
                            (did (LogInfo ''Caught sighup'') s1))
                     else s1)
           in if \<not> (cleaningAlive ob \<and> processingAlive ob \<and> moduleAlive ob) then
                (ReturnedThreadHalted, now,
                 did (LogFatal ''One of our threads has halted; shutting down.'') s2)
              else waitForEvent nextEventTime (obsTime ob) obs s2)
      else (EventDue, now, s))"

section \<open>Specification-side definitions and example inputs\<close>

text \<open>
  The descriptor of the spec's round-trip scenario: valid from
  2004-01-01 (1072915200) until 2004-01-08 (1073520000).
\<close>

definition scenario_server :: server_section where
  "scenario_server =
     \<lparr> descriptorVersion = ''0.2'', digest = ''D'', identityModulusBytes = 256,
       signature = ''S'', published = 1072915200, validAfter = 1072915200,
       validUntil = 1073520000, contact = None, comments = None,
       contactFingerprint = None, packetKeyModulusBytes = 256 \<rparr>"

definition scenario_info :: serverinfo where
  "scenario_info =
     \<lparr> server = scenario_server, incomingMMTP = None, outgoingMMTP = None \<rparr>"

text \<open>
  The live set as the specification words it: \<open>Valid-After \<le> t\<close> and
  \<open>t \<le> Valid-Until + keyOverlap\<close>, both inclusive.
\<close>

definition spec_liveKeys :: "keyring \<Rightarrow> time \<Rightarrow> (time \<times> time \<times> keyset) list" where
  "spec_liveKeys self t =
     filter (\<lambda>(va, vu, k). va \<le> t \<and> t \<le> vu + keyOverlap self) (keySets self)"

text \<open>A keyring with one key set, valid from 10 until 20, and an overlap of 5 seconds.\<close>

definition keyset_0001 :: keyset where
  "keyset_0001 =
     \<lparr> keynum = 1, publishedFile = None, publishedFlag = False \<rparr>"

definition keyring_one :: keyring where
  "keyring_one =
     \<lparr> keySets = [(10, 20, keyset_0001)], keyRange = (1, 1), keyOverlap = 5,
       publicKeyLifetime = 10 \<rparr>"

subsection \<open>The cleaning transform, as the specification words it\<close>

text \<open>
  The lines of a text, a line break being a CR, an LF or a CR followed by an LF:
  \<open>n\<close> line breaks separate \<open>n + 1\<close> lines (the last one may be empty).
\<close>

fun split_lines :: "string \<Rightarrow> string list" where
  "split_lines [] = [[]]"
| "split_lines (c # s) =
     (if c = CR then
        (case s of
           [] \<Rightarrow> [[], []]
         | d # s' \<Rightarrow> if d = LF then [] # split_lines s' else [] # split_lines s)
      else if c = LF then [] # split_lines s
      else (case split_lines s of
              [] \<Rightarrow> [[c]]
            | l # ls \<Rightarrow> (c # l) # ls))"

text \<open>The lines put together again, with a single LF between two lines.\<close>

fun join_lines :: "string list \<Rightarrow> string" where
  "join_lines [] = []"
| "join_lines [l] = l"
| "join_lines (l # ls) = l @ LF # join_lines ls"

definition strip_trailing :: "string \<Rightarrow> string" where
  "strip_trailing l = rev (dropWhile is_blank (rev l))"

definition strip_leading :: "string \<Rightarrow> string" where
  "strip_leading l = dropWhile is_blank l"

text \<open>Steps 2 and 3 on one line: trailing blanks off, then leading blanks off.\<close>

definition strip :: "string \<Rightarrow> string" where
  "strip l = strip_leading (strip_trailing l)"

text \<open>Step 4 as the code does it: an LF is added when the text does not end with one.\<close>

definition ensure_trailing_LF :: "string \<Rightarrow> string" where
  "ensure_trailing_LF s = (if endswith_LF s then s else s @ [LF])"

text \<open>Step 4 as the specification states it: the text ends with one LF and no more.\<close>

definition exactly_one_trailing_LF :: "string \<Rightarrow> bool" where
  "exactly_one_trailing_LF s = (endswith_LF s \<and> \<not> endswith_LF (butlast s))"

subsection \<open>The semantic constraints of a descriptor, as the specification lists them\<close>

text \<open>The length of an optional entry is at most \<open>n\<close> (an entry left out passes).\<close>

definition at_most :: "string option \<Rightarrow> nat \<Rightarrow> bool" where
  "at_most v n = (case v of None \<Rightarrow> True | Some s \<Rightarrow> length s \<le> n)"

text \<open>
  Identity modulus in \<open>[256, 512]\<close> bytes, packet modulus exactly 256 bytes,
  \<open>Valid-After < Valid-Until\<close>, \<open>Published \<le> now + 600\<close>, \<open>Contact \<le> 256\<close>,
  \<open>Comments \<le> 1024\<close>, \<open>Contact-Fingerprint \<le> 128\<close> bytes.
\<close>

definition spec_server_constraints :: "time \<Rightarrow> server_section \<Rightarrow> bool" where
  "spec_server_constraints now srv =
     (256 \<le> identityModulusBytes srv \<and> identityModulusBytes srv \<le> 512 \<and>
      packetKeyModulusBytes srv = 256 \<and>
      validAfter srv < validUntil srv \<and>
      published srv \<le> now + 600 \<and>
      at_most (contact srv) 256 \<and>
      at_most (comments srv) 1024 \<and>
      at_most (contactFingerprint srv) 128)"

text \<open>\<^verbatim>\<open>Incoming/MMTP\<close> declares a hostname or an IP if it is there.\<close>

definition spec_incoming_constraint :: "serverinfo \<Rightarrow> bool" where
  "spec_incoming_constraint self =
     (case incomingMMTP self of
        None \<Rightarrow> True
      | Some inMMTP \<Rightarrow> truthy (inIP inMMTP) \<or> truthy (inHostname inMMTP))"

definition spec_constraints :: "time \<Rightarrow> serverinfo \<Rightarrow> bool" where
  "spec_constraints now self =
     (spec_server_constraints now (server self) \<and> spec_incoming_constraint self)"

text \<open>
  What the code checks besides: the sections \<^verbatim>\<open>Incoming/MMTP\<close> and \<^verbatim>\<open>Outgoing/MMTP\<close>, when
  there, have \<^verbatim>\<open>Version\<close> 0.1, and the \<^verbatim>\<open>Key-Digest\<close> of \<^verbatim>\<open>Incoming/MMTP\<close> is there and
  20 bytes long.
\<close>

definition mmtp_sections_ok :: "serverinfo \<Rightarrow> bool" where
  "mmtp_sections_ok self =
     ((case incomingMMTP self of
         None \<Rightarrow> True
       | Some inMMTP \<Rightarrow>
           inVersion inMMTP = ''0.1'' \<and>
           (case inKeyDigest inMMTP of None \<Rightarrow> False | Some kd \<Rightarrow> length kd = DIGEST_LEN)) \<and>
      (case outgoingMMTP self of
         None \<Rightarrow> True
       | Some outMMTP \<Rightarrow> outVersion outMMTP = ''0.1''))"

definition key_digest_present :: "serverinfo \<Rightarrow> bool" where
  "key_digest_present self =
     (case incomingMMTP self of None \<Rightarrow> True | Some inMMTP \<Rightarrow> inKeyDigest inMMTP \<noteq> None)"

text \<open>
  The scenario descriptor with its validity interval turned round: it is never
  valid.
\<close>

definition never_valid_info :: serverinfo where
  "never_valid_info =
     scenario_info \<lparr> server := scenario_server \<lparr> validAfter := 1073520000,
                                                 validUntil := 1072915200 \<rparr> \<rparr>"

subsection \<open>Replies of the directory, as the specification words them\<close>

text \<open>
  The pattern as the specification writes it, \<^verbatim>\<open>^Status: (0|1)\s*\nMessage: (.*)$\<close>, read
  as written: matched at the start of the reply, with no flag. \<^verbatim>\<open>\s\<close> is one of space,
  TAB, LF, VT, FF and CR; the run of \<^verbatim>\<open>\s\<close> after the digit must end with an LF that
  \<^verbatim>\<open>Message: \<close> follows, and \<^verbatim>\<open>(.*)$\<close> takes the rest of the reply, which has no LF
  or ends with its only one. The result is the digit and the message.
\<close>

definition is_space :: "char \<Rightarrow> bool" where
  "is_space c = (c = CHR '' '' \<or> c = TAB \<or> c = LF \<or> c = CR \<or> c = CHR 0x0B \<or> c = CHR 0x0C)"

definition spec_status_pattern :: "string \<Rightarrow> (char \<times> string) option" where
  "spec_status_pattern s =
     (case strip_prefix ''Status: '' s of
        None \<Rightarrow> None
      | Some r1 \<Rightarrow>
          (case r1 of
             [] \<Rightarrow> None
           | g # r2 \<Rightarrow>
               if (g = CHR ''0'' \<or> g = CHR ''1'') \<and> takeWhile is_space r2 \<noteq> [] \<and>
                  last (takeWhile is_space r2) = LF
               then
                 (case strip_prefix ''Message: '' (dropWhile is_space r2) of
                    None \<Rightarrow> None
                  | Some r4 \<Rightarrow>
                      if dropWhile (\<lambda>c. c \<noteq> LF) r4 = [] \<or> dropWhile (\<lambda>c. c \<noteq> LF) r4 = [LF]
                      then Some (g, takeWhile (\<lambda>c. c \<noteq> LF) r4)
                      else None)
               else None))"

text \<open>
  The status of a reply, line by line. The lines of a text are what stands between
  its LFs (a CR is a character of its line).
\<close>

fun lines_LF :: "string \<Rightarrow> string list" where
  "lines_LF [] = [[]]"
| "lines_LF (c # s) =
     (if c = LF then [] # lines_LF s
      else (case lines_LF s of [] \<Rightarrow> [[c]] | l # ls \<Rightarrow> (c # l) # ls))"

text \<open>
  A status line is \<^verbatim>\<open>Status: \<close>, the digit 0 or 1, and then spaces and tabs only; a
  message line starts with \<^verbatim>\<open>Message: \<close>.
\<close>

definition status_of_line :: "string \<Rightarrow> char option" where
  "status_of_line l =
     (case strip_prefix ''Status: '' l of
        None \<Rightarrow> None
      | Some r \<Rightarrow>
          (case r of
             [] \<Rightarrow> None
           | g # blanks \<Rightarrow>
               if (g = CHR ''0'' \<or> g = CHR ''1'') \<and> list_all is_blank blanks then Some g
               else None))"

definition message_of_line :: "string \<Rightarrow> string option" where
  "message_of_line l = strip_prefix ''Message: '' l"

text \<open>
  The digit and the message of the first status line of the text that has a message
  line right after it.
\<close>

fun first_status :: "string list \<Rightarrow> (char \<times> string) option" where
  "first_status (l # m # ls) =
     (case status_of_line l of
        None \<Rightarrow> first_status (m # ls)
      | Some g \<Rightarrow>
          (case message_of_line m of
             None \<Rightarrow> first_status (m # ls)
           | Some msg \<Rightarrow> Some (g, msg)))"
| "first_status ls = None"

text \<open>
  The status of a reply: \<open>Some d\<close> when the reply has \<^verbatim>\<open>Content-Type\<close> \<^verbatim>\<open>text/plain\<close> and
  its first status line with a message line after it reads \<^verbatim>\<open>Status: d\<close>; \<open>None\<close> for
  any other reply and for a network exception.
\<close>

definition status_line :: "http_reply \<Rightarrow> char option" where
  "status_line reply =
     (case reply of
        NetworkFailure \<Rightarrow> None
      | Reply contentType body \<Rightarrow>
          if contentType = Some ''text/plain''
          then map_option fst (first_status (lines_LF body)) else None)"

text \<open>The outcome that goes with a reply: accept for status 1, reject for status 0.\<close>

definition outcome :: "http_reply \<Rightarrow> publish_status" where
  "outcome reply =
     (case status_line reply of
        None \<Rightarrow> Error
      | Some d \<Rightarrow> if d = CHR ''1'' then Accept else Reject)"

text \<open>
  The outcomes of the requests for the key sets \<open>kss\<close>, and the key sets with the
  accepted ones marked as published, when request number \<open>i\<close> is the one for the first
  of them.
\<close>

definition statuses_from :: "(nat \<Rightarrow> http_reply) \<Rightarrow> nat \<Rightarrow> keyset list \<Rightarrow> publish_status list" where
  "statuses_from directory i kss = map (\<lambda>(j, ks). outcome (directory j)) (enumerate i kss)"

definition published_from ::
  "time \<Rightarrow> (nat \<Rightarrow> http_reply) \<Rightarrow> nat \<Rightarrow> keyset list \<Rightarrow> keyset list" where
  "published_from clock directory i kss =
     map (\<lambda>(j, ks). if outcome (directory j) = Accept
                     then ks \<lparr> publishedFile := Some clock, publishedFlag := True \<rparr> else ks)
       (enumerate i kss)"

text \<open>The number of requests before the first one that ends in an error.\<close>

definition answered :: "publish_status list \<Rightarrow> nat" where
  "answered sts = length (takeWhile (\<lambda>s. s \<noteq> Error) sts)"

text \<open>The key sets that \<^verbatim>\<open>publishKeys\<close> goes through.\<close>

definition selected :: "bool \<Rightarrow> keyring \<Rightarrow> keyset list" where
  "selected allKeys self =
     (if allKeys then map (\<lambda>(va, vu, ks). ks) (keySets self)
      else filter (\<lambda>ks. \<not> publishedFlag ks) (map (\<lambda>(va, vu, ks). ks) (keySets self)))"

text \<open>Replies of a directory server, and two directories.\<close>

definition reply_accept :: http_reply where
  "reply_accept = Reply (Some ''text/plain'') (''Status: 1'' @ [LF] @ ''Message: ok'')"
definition reply_reject :: http_reply where
  "reply_reject = Reply (Some ''text/plain'') (''Status: 0'' @ [LF] @ ''Message: expired'')"
definition reply_html :: http_reply where
  "reply_html = Reply (Some ''text/html'') (''Status: 1'' @ [LF] @ ''Message: ok'')"

text \<open>
  A reply whose status line ends with CR LF, and one whose status line is the
  second line of the body.
\<close>

definition body_crlf :: string where
  "body_crlf = ''Status: 1'' @ [CR, LF] @ ''Message: ok''"
definition reply_crlf :: http_reply where
  "reply_crlf = Reply (Some ''text/plain'') body_crlf"
definition reply_second_line :: http_reply where
  "reply_second_line =
     Reply (Some ''text/plain'')
       (''Directory'' @ [LF] @ ''Status: 1 '' @ [TAB, LF] @ ''Message: ok'' @ [LF] @ ''bye'')"

definition directory_are :: "nat \<Rightarrow> http_reply" where
  "directory_are j = (if j = 0 then reply_accept else if j = 1 then reply_reject
      else if j = 2 then NetworkFailure else reply_accept)"
definition directory_ara :: "nat \<Rightarrow> http_reply" where
  "directory_ara j = (if j = 1 then reply_reject else reply_accept)"

definition keyset_0002 :: keyset where
  "keyset_0002 = keyset_0001 \<lparr> keynum := 2 \<rparr>"

definition keyset_0003 :: keyset where
  "keyset_0003 = keyset_0001 \<lparr> keynum := 3 \<rparr>"

definition keyset_0004 :: keyset where
  "keyset_0004 = keyset_0001 \<lparr> keynum := 4 \<rparr>"

definition keyring_four :: keyring where
  "keyring_four =
     \<lparr> keySets = [(10, 20, keyset_0001), (20, 30, keyset_0002), (30, 40, keyset_0003),
                  (40, 50, keyset_0004)],
       keyRange = (1, 4), keyOverlap = 5, publicKeyLifetime = 10 \<rparr>"

subsection \<open>Key coverage, as the specification words it\<close>

text \<open>The key coverage: the \<^verbatim>\<open>Valid-Until\<close> of the last key set.\<close>

definition lastValidUntil :: "keyring \<Rightarrow> time" where
  "lastValidUntil self = fst (snd (last (keySets self)))"

text \<open>The keyring has a key set, and its coverage extends to at least \<open>t\<close>.\<close>

definition covers :: "keyring \<Rightarrow> time \<Rightarrow> bool" where
  "covers self t = (keySets self \<noteq> [] \<and> t \<le> lastValidUntil self)"

text \<open>
  A keyring as \<^verbatim>\<open>checkKeys\<close> and \<^verbatim>\<open>validate\<close> leave it, with descriptors of this server:
  the key sets are sorted, every \<^verbatim>\<open>Valid-After\<close> is before its \<^verbatim>\<open>Valid-Until\<close>, both are
  dates (midnights), and the configured lifetime is a whole number of days.
\<close>

definition well_formed :: "keyring \<Rightarrow> bool" where
  "well_formed self =
     (sorted (map entry_key (keySets self)) \<and>
      list_all (\<lambda>(va, vu, ks). va < vu \<and> va mod 86400 = 0 \<and> vu mod 86400 = 0) (keySets self) \<and>
      0 < publicKeyLifetime self \<and> publicKeyLifetime self mod 86400 = 0)"

text \<open>
  Keyrings for a server with a lifetime of 7 days: with no key set; with one key
  set that is valid until 2004-01-05; with one that is valid until 2004-01-03.
\<close>

definition empty_keyring :: keyring where
  "empty_keyring =
     \<lparr> keySets = [], keyRange = (sys_maxint, 0), keyOverlap = 0, publicKeyLifetime = 604800 \<rparr>"

definition keyring_until_0105 :: keyring where
  "keyring_until_0105 =
     \<lparr> keySets = [(1072656000, 1073260800, keyset_0001)], keyRange = (1, 1), keyOverlap = 0,
       publicKeyLifetime = 604800 \<rparr>"

definition keyring_until_0103 :: keyring where
  "keyring_until_0103 =
     \<lparr> keySets = [(1072483200, 1073088000, keyset_0001)], keyRange = (1, 1), keyOverlap = 0,
       publicKeyLifetime = 604800 \<rparr>"

subsection \<open>The mix pool and the scheduler, as the specification words them\<close>

text \<open>A server with nothing in its queues and an empty trace.\<close>

definition fresh_server :: server_state where
  "fresh_server = \<lparr> pool = [], nextHandle = 0, outgoing = [], modules = [], trace = [] \<rparr>"

text \<open>An entry in the obsolete format.\<close>

definition is_obsolete :: "packet \<Rightarrow> bool" where
  "is_obsolete obj = (case obj of ObsoleteTuple t \<Rightarrow> True | DeliveryPacket c \<Rightarrow> False | RelayedPacket c \<Rightarrow> False)"

text \<open>The objects that entered the pool: those of the \<open>PoolQueueObject\<close> actions of a trace.\<close>

fun queued :: "action list \<Rightarrow> packet list" where
  "queued [] = []"
| "queued (PoolQueueObject obj # tr) = obj # queued tr"
| "queued (a # tr) = queued tr"

text \<open>
  The objects still in the pool together with those dispatched out of it, to the
  outgoing queue or to the module manager.
\<close>

definition held :: "server_state \<Rightarrow> packet multiset" where
  "held s = mset (map snd (pool s)) + mset (outgoing s) + mset (modules s)"

text \<open>
  A pool whose entries came in through \<^verbatim>\<open>MixPool.queueObject\<close>: their handles differ and
  have been used, and none is in the obsolete format.
\<close>

definition pool_ok :: "server_state \<Rightarrow> bool" where
  "pool_ok s =
     (distinct (map fst (pool s)) \<and>
      list_all (\<lambda>(h, obj). h < nextHandle s \<and> \<not> is_obsolete obj) (pool s))"

text \<open>
  The actions of \<^verbatim>\<open>mix\<close>: the choice of the batch, the two ways of handing a packet
  over, and the removal from the pool.
\<close>

definition is_mix_action :: "action \<Rightarrow> bool" where
  "is_mix_action a =
     (case a of
        GetBatch hs \<Rightarrow> True
      | QueueDecodedMessage p \<Rightarrow> True
      | QueueDeliveryMessage p \<Rightarrow> True
      | RemoveMessage h \<Rightarrow> True
      | _ \<Rightarrow> False)"

text \<open>
  The packets handed to the module manager and to the outgoing queue in a trace,
  and the timeouts of the calls of \<^verbatim>\<open>process\<close> in a trace.
\<close>

fun to_modules :: "action list \<Rightarrow> packet list" where
  "to_modules [] = []"
| "to_modules (QueueDecodedMessage p # tr) = p # to_modules tr"
| "to_modules (a # tr) = to_modules tr"

fun to_outgoing :: "action list \<Rightarrow> packet list" where
  "to_outgoing [] = []"
| "to_outgoing (QueueDeliveryMessage p # tr) = p # to_outgoing tr"
| "to_outgoing (a # tr) = to_outgoing tr"

fun process_calls :: "action list \<Rightarrow> int list" where
  "process_calls [] = []"
| "process_calls (MMTPProcess t # tr) = t # process_calls tr"
| "process_calls (a # tr) = process_calls tr"

text \<open>
  From \<open>s\<close> to \<open>s'\<close> the actions \<open>acts\<close> were appended to the trace, all of them
  actions of \<^verbatim>\<open>mix\<close>, and what was handed over is what these actions say.
\<close>

definition mix_effect :: "server_state \<Rightarrow> server_state \<Rightarrow> action list \<Rightarrow> bool" where
  "mix_effect s s' acts =
     (trace s' = trace s @ acts \<and> list_all is_mix_action acts \<and>
      modules s' = modules s @ to_modules acts \<and>
      outgoing s' = outgoing s @ to_outgoing acts)"

text \<open>
  What a turn of the wait loop logs on a \<^verbatim>\<open>SIGHUP\<close>, and its health check of the
  threads.
\<close>

definition hup_actions :: "observation \<Rightarrow> action list" where
  "hup_actions ob =
     (if obsGOT_HUP ob then [LogInfo ''Caught sighup'', LogInfo ''Resetting logs'', LogReset]
      else [])"

definition threads_alive :: "observation \<Rightarrow> bool" where
  "threads_alive ob = (cleaningAlive ob \<and> processingAlive ob \<and> moduleAlive ob)"

text \<open>The timeout of \<^verbatim>\<open>process\<close> as the specification states it.\<close>

definition spec_timeout :: "int \<Rightarrow> int" where
  "spec_timeout timeLeft = min timeLeft 2"

text \<open>
  Example inputs: a sequence of operations; a turn of the wait loop in which nothing
  happens and the clock reads 2 at the end; a mix event whose batch is the whole
  pool, and one where \<^verbatim>\<open>syncLogs\<close> raises.
\<close>

definition example_operations :: "operation list" where
  "example_operations =
     [QueueObject (RelayedPacket ''a''), QueueObject (DeliveryPacket ''b''),
      QueueObject (ObsoleteTuple ''t''), QueueObject (RelayedPacket ''c''),
      MixTick [2, 0], QueueObject (RelayedPacket ''d''), MixTick [1, 7]]"

definition quiet_turn :: observation where
  "quiet_turn =
     \<lparr> obsSTOPPING = False, obsGOT_HUP = False, cleaningAlive = True, processingAlive = True,
       moduleAlive = True, obsTime = 2 \<rparr>"

definition two_in_pool :: server_state where
  "two_in_pool =
     \<lparr> pool = [(0, RelayedPacket ''a''), (1, DeliveryPacket ''b'')], nextHandle = 2,
       outgoing = [], modules = [], trace = [] \<rparr>"

definition mix_all :: event_env where
  "mix_all = \<lparr> syncLogsResult = None, chosenBatch = [0, 1], nextTimeoutTime = 0, mixInterval = 1800 \<rparr>"

definition sync_fails :: event_env where
  "sync_fails = mix_all \<lparr> syncLogsResult := Some IOError \<rparr>"

section \<open>Theorems\<close>

subsection \<open>Validity interval of a descriptor\<close>

text \<open>
  C10, as the code has it. Validity endpoints are inclusive and expiry is strict:
  \<open>isValidAt\<close> holds at \<open>t\<close> exactly when \<open>Valid-After \<le> t \<le> Valid-Until\<close>, and
  \<open>isExpiredAt\<close> holds at \<open>when\<close> exactly when \<open>Valid-Until < when\<close>. At the boundary
  \<open>t = Valid-Until\<close> a descriptor with \<open>Valid-After \<le> Valid-Until\<close> is valid and not
  expired.
\<close>

theorem isValidAt_inclusive_isExpiredAt_strict:
  "(isValidAt d t \<longleftrightarrow> validAfter (server d) \<le> t \<and> t \<le> validUntil (server d)) \<and>
   (isExpiredAt d w \<longleftrightarrow> validUntil (server d) < w) \<and>
   (validAfter (server d) \<le> validUntil (server d) \<longrightarrow>
      isValidAt d (validUntil (server d)) \<and> \<not> isExpiredAt d (validUntil (server d)))"
  by (simp add: isValidAt_def isExpiredAt_def)

theorem isValidAt_inclusive_isExpiredAt_strict_witness:
  "validAfter (server scenario_info) \<le> validUntil (server scenario_info) \<and>
   isValidAt scenario_info 1073520000 \<and> \<not> isExpiredAt scenario_info 1073520000 \<and>
   \<not> isValidAt scenario_info 1073520001 \<and> isExpiredAt scenario_info 1073520001"
  using isValidAt_inclusive_isExpiredAt_strict [of scenario_info 1073520001 1073520001]
  by (simp add: scenario_info_def scenario_server_def)

text \<open>
  C10, as stated, fails at the boundary for a parsed descriptor whose interval is
  empty. \<^verbatim>\<open>validate\<close> refuses such a descriptor only after it has looked its digest up
  among the validated ones: the descriptor with \<^verbatim>\<open>Valid-After\<close> 2004-01-08 and
  \<^verbatim>\<open>Valid-Until\<close> 2004-01-01 passes when its digest is already known, and it is not
  valid at \<open>t = Valid-Until\<close>.
\<close>

theorem isValidAt_boundary_counterexample:
  "validate 1072915200 (Some [''D'']) ''D'' None never_valid_info = Inr () \<and>
   \<not> isValidAt never_valid_info (validUntil (server never_valid_info)) \<and>
   \<not> isExpiredAt never_valid_info (validUntil (server never_valid_info))"
  by (simp add: validate_def already_validated_def never_valid_info_def scenario_info_def
      scenario_server_def isValidAt_def isExpiredAt_def)

subsection \<open>Live keys\<close>

text \<open>
  C6, as the code has it. \<open>_getLiveKeys(t)\<close> returns exactly the key sets with
  \<open>Valid-After < t\<close> and \<open>t < Valid-Until + keyOverlap\<close>, in the keyring's order: both
  comparisons are strict, so a key set is not live at the instant \<open>t = Valid-After\<close>
  nor at the instant \<open>t = Valid-Until + keyOverlap\<close>. Without an argument, \<open>t\<close> is the
  clock.
\<close>

theorem getLiveKeys_strict:
  "getLiveKeys clock kr (Some t) =
     filter (\<lambda>(va, vu, k). va < t \<and> t < vu + keyOverlap kr) (keySets kr) \<and>
   getLiveKeys clock kr None =
     filter (\<lambda>(va, vu, k). va < clock \<and> clock < vu + keyOverlap kr) (keySets kr)"
proof -
  have strict: "\<And>now (vu :: int). (vu > now - keyOverlap kr) = (now < vu + keyOverlap kr)"
    by arith
  show ?thesis
    by (cases "keySets kr = []") (simp_all add: getLiveKeys_def Let_def strict)
qed

text \<open>
  C6, as stated, fails at both boundaries: the key set valid from 10 until 20 with
  an overlap of 5 is in the specified live set at \<open>t = 10\<close> and at \<open>t = 25\<close>, and
  \<open>_getLiveKeys\<close> returns nothing there.
\<close>

theorem getLiveKeys_boundary_counterexample:
  "spec_liveKeys keyring_one 10 = [(10, 20, keyset_0001)] \<and>
   getLiveKeys 0 keyring_one (Some 10) = [] \<and>
   spec_liveKeys keyring_one 25 = [(10, 20, keyset_0001)] \<and>
   getLiveKeys 0 keyring_one (Some 25) = []"
  by (simp add: spec_liveKeys_def getLiveKeys_def keyring_one_def)

subsection \<open>Canonical form for digests\<close>

lemma split_lines_not_Nil: "split_lines s \<noteq> []"
  by (induction s rule: split_lines.induct) (auto split: list.splits)

lemma split_lines_CR_LF: "split_lines (CR # LF # s) = [] # split_lines s"
  by simp

lemma split_lines_CR_end: "split_lines [CR] = [[], []]"
  by simp

lemma split_lines_CR_other: "d \<noteq> LF \<Longrightarrow> split_lines (CR # d # s) = [] # split_lines (d # s)"
  by simp

lemma split_lines_LF: "split_lines (LF # s) = [] # split_lines s"
  by simp

lemma split_lines_other:
  "c \<noteq> CR \<Longrightarrow> c \<noteq> LF \<Longrightarrow>
   split_lines (c # s) = (c # hd (split_lines s)) # tl (split_lines s)"
  using split_lines_not_Nil [of s] by (cases "split_lines s") simp_all

lemmas split_lines_cases =
  split_lines_CR_LF split_lines_CR_end split_lines_CR_other split_lines_LF split_lines_other

lemma sub_abnormal_CR_LF: "sub_abnormal_line_ending (CR # LF # s) = LF # sub_abnormal_line_ending s"
  by simp

lemma sub_abnormal_CR_end: "sub_abnormal_line_ending [CR] = [LF]"
  by simp

lemma sub_abnormal_CR_other:
  "d \<noteq> LF \<Longrightarrow> sub_abnormal_line_ending (CR # d # s) = LF # sub_abnormal_line_ending (d # s)"
  by simp

lemma sub_abnormal_other:
  "c \<noteq> CR \<Longrightarrow> sub_abnormal_line_ending (c # s) = c # sub_abnormal_line_ending s"
  by simp

lemmas sub_abnormal_cases =
  sub_abnormal_CR_LF sub_abnormal_CR_end sub_abnormal_CR_other sub_abnormal_other

declare split_lines.simps(2) [simp del] sub_abnormal_line_ending.simps(2) [simp del]

lemma join_lines_Cons: "ls \<noteq> [] \<Longrightarrow> join_lines (l # ls) = l @ LF # join_lines ls"
  by (cases ls) simp_all

lemma join_lines_hd_Cons:
  "ls \<noteq> [] \<Longrightarrow> join_lines ((c # hd ls) # tl ls) = c # join_lines ls"
  by (cases ls rule: join_lines.cases) simp_all

lemma sub_abnormal_join_split: "sub_abnormal_line_ending s = join_lines (split_lines s)"
proof (induction s rule: split_lines.induct)
  case 1 show ?case by simp
next
  case (2 c s)
  consider (crlf) s' where "c = CR" "s = LF # s'"
    | (cr_end) "c = CR" "s = []"
    | (cr) d s' where "c = CR" "s = d # s'" "d \<noteq> LF"
    | (lf) "c = LF"
    | (other) "c \<noteq> CR" "c \<noteq> LF"
    by (cases s) auto
  then show ?case
  proof cases
    case crlf
    with 2 show ?thesis
      by (simp add: split_lines_cases sub_abnormal_cases join_lines_Cons split_lines_not_Nil)
  next
    case cr_end
    then show ?thesis by (simp add: split_lines_cases sub_abnormal_cases)
  next
    case cr
    with 2 show ?thesis
      by (simp add: split_lines_cases sub_abnormal_cases join_lines_Cons split_lines_not_Nil)
  next
    case lf
    with 2 show ?thesis
      by (simp add: split_lines_cases sub_abnormal_cases join_lines_Cons split_lines_not_Nil)
  next
    case other
    with 2 show ?thesis
      by (simp add: split_lines_cases sub_abnormal_cases join_lines_hd_Cons split_lines_not_Nil)
  qed
qed

lemma split_lines_line_chars: "l \<in> set (split_lines s) \<Longrightarrow> LF \<notin> set l \<and> CR \<notin> set l"
proof (induction s arbitrary: l rule: split_lines.induct)
  case 1 then show ?case by simp
next
  case (2 c s)
  consider (crlf) s' where "c = CR" "s = LF # s'"
    | (cr_end) "c = CR" "s = []"
    | (cr) d s' where "c = CR" "s = d # s'" "d \<noteq> LF"
    | (lf) "c = LF"
    | (other) "c \<noteq> CR" "c \<noteq> LF"
    by (cases s) auto
  then show ?case
  proof cases
    case crlf
    with 2 show ?thesis by (auto simp: split_lines_cases)
  next
    case cr_end
    with 2 show ?thesis by (auto simp: split_lines_cases)
  next
    case cr
    with 2 show ?thesis by (auto simp: split_lines_cases)
  next
    case lf
    with 2 show ?thesis by (auto simp: split_lines_cases)
  next
    case other
    have mem: "hd (split_lines s) \<in> set (split_lines s)"
      using split_lines_not_Nil by simp
    have tl: "set (tl (split_lines s)) \<subseteq> set (split_lines s)"
      using split_lines_not_Nil [of s] by (cases "split_lines s") auto
    from 2(5) other have "l = c # hd (split_lines s) \<or> l \<in> set (tl (split_lines s))"
      by (simp add: split_lines_cases)
    then show ?thesis
      using 2(4) [OF _ _ mem] 2(4) [of l] other tl by auto
  qed
qed


lemma not_blank_LF [simp]: "\<not> is_blank LF"
  by (simp add: is_blank_def)

lemma strip_trailing_Nil [simp]: "strip_trailing [] = []"
  by (simp add: strip_trailing_def)

lemma dropWhile_all: "\<forall>x \<in> set xs. P x \<Longrightarrow> dropWhile P (xs @ ys) = dropWhile P ys"
  by (induction xs) auto

lemma strip_trailing_Cons:
  "strip_trailing (c # l) = (if \<forall>x \<in> set (c # l). is_blank x then [] else c # strip_trailing l)"
proof (cases "\<forall>x \<in> set l. is_blank x")
  case True
  then have all: "\<forall>x \<in> set (rev l). is_blank x" by simp
  have a: "dropWhile is_blank (rev l @ [c]) = dropWhile is_blank [c]"
    by (rule dropWhile_all [OF all])
  have b: "dropWhile is_blank (rev l) = []"
    using dropWhile_all [OF all, of "[]"] by simp
  show ?thesis
    unfolding strip_trailing_def rev.simps a b using True by simp
next
  case False
  then obtain x where "x \<in> set (rev l)" "\<not> is_blank x" by auto
  then have "dropWhile is_blank (rev l @ [c]) = dropWhile is_blank (rev l) @ [c]"
    by (rule dropWhile_append1)
  with False show ?thesis by (auto simp: strip_trailing_def)
qed

lemma set_strip_trailing: "set (strip_trailing l) \<subseteq> set l"
  unfolding strip_trailing_def using set_dropWhileD [of _ is_blank "rev l"] by auto

lemma set_strip_leading: "set (strip_leading l) \<subseteq> set l"
  unfolding strip_leading_def using set_dropWhileD [of _ is_blank l] by auto

lemma dropWhile_blank_line_end:
  "t = [] \<or> hd t = LF \<Longrightarrow> dropWhile is_blank t = t"
  by (cases t) auto

lemma sub_trailing_line_gen:
  assumes "LF \<notin> set l" and "t = [] \<or> hd t = LF"
  shows "sub_trailing_whitespace (l @ t) = strip_trailing l @ sub_trailing_whitespace t"
  using assms
proof (induction l)
  case Nil
  then show ?case by simp
next
  case (Cons c l)
  then have IH: "sub_trailing_whitespace (l @ t) = strip_trailing l @ sub_trailing_whitespace t"
    by simp
  show ?case
  proof (cases "is_blank c")
    case False
    then show ?thesis using IH by (simp add: strip_trailing_Cons)
  next
    case True
    show ?thesis
    proof (cases "\<forall>x \<in> set l. is_blank x")
      case allb: True
      have dw: "dropWhile is_blank (l @ t) = t"
        using dropWhile_all [of l is_blank t] allb Cons.prems(2)
        by (simp add: dropWhile_blank_line_end)
      show ?thesis
      proof (cases t)
        case Nil
        with dw have dwl: "dropWhile is_blank l = []" by simp
        from True allb show ?thesis by (simp add: Nil dwl strip_trailing_Cons)
      next
        case (Cons d r)
        with Cons.prems(2) have "d = LF" by simp
        with dw True allb Cons show ?thesis by (simp add: strip_trailing_Cons)
      qed
    next
      case False
      then obtain x where x: "x \<in> set l" "\<not> is_blank x" by auto
      then have dw: "dropWhile is_blank (l @ t) = dropWhile is_blank l @ t"
        by (rule dropWhile_append1)
      from x have ne: "dropWhile is_blank l \<noteq> []" by auto
      then obtain d r where dr: "dropWhile is_blank l = d # r"
        by (cases "dropWhile is_blank l") auto
      have "d \<in> set l" using set_dropWhileD [of d is_blank l] dr by simp
      with Cons.prems(1) have "d \<noteq> LF" by auto
      with dw dr True False IH show ?thesis by (simp add: strip_trailing_Cons)
    qed
  qed
qed

lemma sub_trailing_LF: "sub_trailing_whitespace (LF # r) = LF # sub_trailing_whitespace r"
  by simp

lemma sub_trailing_join:
  "ls \<noteq> [] \<Longrightarrow> \<forall>l \<in> set ls. LF \<notin> set l \<Longrightarrow>
   sub_trailing_whitespace (join_lines ls) = join_lines (map strip_trailing ls)"
proof (induction ls rule: join_lines.induct)
  case 1 then show ?case by simp
next
  case (2 l)
  then show ?case using sub_trailing_line_gen [of l "[]"] by simp
next
  case (3 l v va)
  then show ?case
    using sub_trailing_line_gen [of l "LF # join_lines (v # va)"] by simp
qed

lemma sub_leading_False_line:
  "LF \<notin> set l \<Longrightarrow>
   sub_leading_whitespace False (l @ LF # r) = l @ LF # sub_leading_whitespace True r"
  by (induction l) auto

lemma sub_leading_False_end:
  "LF \<notin> set l \<Longrightarrow> sub_leading_whitespace False l = l"
  by (induction l) auto


lemma sub_leading_line_gen:
  assumes "LF \<notin> set l" and "t = [] \<or> hd t = LF"
  shows "sub_leading_whitespace True (l @ t) =
           strip_leading l @ (case t of [] \<Rightarrow> [] | d # r \<Rightarrow> LF # sub_leading_whitespace True r)"
proof (cases l)
  case Nil
  then show ?thesis using assms(2) by (cases t) (auto simp: strip_leading_def)
next
  case (Cons c l')
  then have c: "c \<noteq> LF" and l': "LF \<notin> set l'" using assms(1) by auto
  show ?thesis
  proof (cases "is_blank c")
    case False
    show ?thesis
    proof (cases t)
      case Nil
      with False Cons c l' show ?thesis
        using sub_leading_False_end [of l'] by (simp add: strip_leading_def)
    next
      case tc: (Cons d r)
      with assms(2) have "d = LF" by simp
      with False Cons c l' tc show ?thesis
        using sub_leading_False_line [of l' r] by (simp add: strip_leading_def)
    qed
  next
    case True
    have notin: "LF \<notin> set (dropWhile is_blank l')"
      using l' set_dropWhileD [of LF is_blank l'] by auto
    have dw: "dropWhile is_blank (l' @ t) = dropWhile is_blank l' @ t"
    proof (cases "\<forall>x \<in> set l'. is_blank x")
      case True
      then show ?thesis
        using dropWhile_all [of l' is_blank t] dropWhile_all [of l' is_blank "[]"] assms(2)
        by (simp add: dropWhile_blank_line_end)
    next
      case False
      then obtain x where "x \<in> set l'" "\<not> is_blank x" by auto
      then show ?thesis by (rule dropWhile_append1)
    qed
    show ?thesis
    proof (cases t)
      case Nil
      with True Cons dw notin show ?thesis
        using sub_leading_False_end [of "dropWhile is_blank l'"] by (simp add: strip_leading_def)
    next
      case tc: (Cons d r)
      with assms(2) have "d = LF" by simp
      with True Cons dw notin tc show ?thesis
        using sub_leading_False_line [of "dropWhile is_blank l'" r] by (simp add: strip_leading_def)
    qed
  qed
qed

lemma sub_leading_join:
  "ls \<noteq> [] \<Longrightarrow> \<forall>l \<in> set ls. LF \<notin> set l \<Longrightarrow>
   sub_leading_whitespace True (join_lines ls) = join_lines (map strip_leading ls)"
proof (induction ls rule: join_lines.induct)
  case 1 then show ?case by simp
next
  case (2 l)
  then show ?case using sub_leading_line_gen [of l "[]"] by simp
next
  case (3 l v va)
  then show ?case
    using sub_leading_line_gen [of l "LF # join_lines (v # va)"] by simp
qed

lemma cleanForDigest_join_split:
  "cleanForDigest s = ensure_trailing_LF (join_lines (map strip (split_lines s)))"
proof -
  let ?ls = "split_lines s"
  have ne: "?ls \<noteq> []" by (rule split_lines_not_Nil)
  have lf: "\<forall>l \<in> set ?ls. LF \<notin> set l" using split_lines_line_chars by blast
  have lf': "\<forall>l \<in> set (map strip_trailing ?ls). LF \<notin> set l"
    using lf set_strip_trailing by fastforce
  have s2: "sub_trailing_whitespace (sub_abnormal_line_ending s) = join_lines (map strip_trailing ?ls)"
    by (simp add: sub_abnormal_join_split sub_trailing_join [OF ne lf])
  have s3: "sub_leading_whitespace True (join_lines (map strip_trailing ?ls)) =
              join_lines (map strip_leading (map strip_trailing ?ls))"
    by (rule sub_leading_join) (use ne lf' in simp_all)
  have comp: "strip_leading \<circ> strip_trailing = strip"
    by (simp add: fun_eq_iff strip_def)
  have "sub_leading_whitespace True (sub_trailing_whitespace (sub_abnormal_line_ending s)) =
               join_lines (map strip ?ls)"
    by (simp add: s2 s3 comp)
  then show ?thesis
    by (simp add: cleanForDigest_def Let_def ensure_trailing_LF_def)
qed


lemma split_lines_line_gen:
  assumes "LF \<notin> set l" "CR \<notin> set l"
  shows "split_lines (l @ LF # r) = l # split_lines r" and "split_lines l = [l]"
  using assms
proof (induction l)
  case Nil
  { case 1 show ?case by (simp add: split_lines_LF) }
  { case 2 show ?case by simp }
next
  case (Cons a l)
  { case 1
    then have "a \<noteq> LF" "a \<noteq> CR" "LF \<notin> set l" "CR \<notin> set l" by auto
    then show ?case using Cons(1) by (simp add: split_lines_other) }
  { case 2
    then have "a \<noteq> LF" "a \<noteq> CR" "LF \<notin> set l" "CR \<notin> set l" by auto
    then show ?case using Cons(2) by (simp add: split_lines_other) }
qed

lemma split_join_lines:
  "ls \<noteq> [] \<Longrightarrow> \<forall>l \<in> set ls. LF \<notin> set l \<and> CR \<notin> set l \<Longrightarrow>
   split_lines (join_lines ls) = ls"
proof (induction ls rule: join_lines.induct)
  case 1 then show ?case by simp
next
  case (2 l)
  then show ?case by (simp add: split_lines_line_gen)
next
  case (3 l v va)
  then show ?case by (simp add: split_lines_line_gen)
qed

lemma strip_trailing_end:
  "strip_trailing l = [] \<or> \<not> is_blank (last (strip_trailing l))"
proof (cases "dropWhile is_blank (rev l)")
  case Nil
  then show ?thesis by (simp add: strip_trailing_def)
next
  case (Cons d r)
  then have "\<not> is_blank (hd (dropWhile is_blank (rev l)))"
    using hd_dropWhile [of is_blank "rev l"] by simp
  with Cons show ?thesis by (simp add: strip_trailing_def)
qed

lemma strip_trailing_id:
  "x = [] \<or> \<not> is_blank (last x) \<Longrightarrow> strip_trailing x = x"
proof (cases x rule: rev_cases)
  case Nil
  then show ?thesis by simp
next
  case (snoc ys y)
  assume "x = [] \<or> \<not> is_blank (last x)"
  with snoc have "\<not> is_blank y" by simp
  with snoc show ?thesis by (simp add: strip_trailing_def)
qed

lemma strip_leading_end:
  assumes "x = [] \<or> \<not> is_blank (last x)"
  shows "strip_leading x = [] \<or> \<not> is_blank (last (strip_leading x))"
proof (cases "dropWhile is_blank x = []")
  case True
  then show ?thesis by (simp add: strip_leading_def)
next
  case False
  have "x = takeWhile is_blank x @ dropWhile is_blank x" by simp
  then have "last x = last (dropWhile is_blank x)"
    using False by (metis last_appendR)
  moreover from False have "x \<noteq> []" by auto
  ultimately show ?thesis using assms by (simp add: strip_leading_def)
qed

lemma strip_idem: "strip (strip l) = strip l"
proof -
  have "strip_trailing (strip l) = strip l"
    unfolding strip_def
    by (rule strip_trailing_id) (rule strip_leading_end, rule strip_trailing_end)
  then show ?thesis
    by (simp add: strip_def strip_leading_def)
qed

lemma strip_Nil [simp]: "strip [] = []"
  by (simp add: strip_def strip_leading_def)

lemma set_strip: "set (strip l) \<subseteq> set l"
  unfolding strip_def using set_strip_leading set_strip_trailing by blast

lemma join_lines_snoc_empty: "ls \<noteq> [] \<Longrightarrow> join_lines (ls @ [[]]) = join_lines ls @ [LF]"
  by (induction ls rule: join_lines.induct) simp_all

lemma ensure_trailing_LF_idem: "ensure_trailing_LF (ensure_trailing_LF t) = ensure_trailing_LF t"
  by (simp add: ensure_trailing_LF_def endswith_LF_def)

lemma clean_fixpoint:
  assumes ne: "ls \<noteq> []"
    and chars: "\<forall>l \<in> set ls. LF \<notin> set l \<and> CR \<notin> set l"
    and stripped: "\<forall>l \<in> set ls. strip l = l"
  shows "cleanForDigest (join_lines ls) = ensure_trailing_LF (join_lines ls)"
proof -
  have "map strip ls = ls"
    using stripped by (simp add: map_idI)
  then show ?thesis
    by (simp add: cleanForDigest_join_split split_join_lines [OF ne chars])
qed

lemma ensure_trailing_LF_ends: "endswith_LF (ensure_trailing_LF t)"
  by (simp add: ensure_trailing_LF_def endswith_LF_def)

lemma join_lines_no_CR: "\<forall>l \<in> set ls. CR \<notin> set l \<Longrightarrow> CR \<notin> set (join_lines ls)"
  by (induction ls rule: join_lines.induct) auto

lemma cleanForDigest_no_CR: "CR \<notin> set (cleanForDigest s)"
proof -
  have "\<forall>l \<in> set (map strip (split_lines s)). CR \<notin> set l"
    using split_lines_line_chars set_strip by fastforce
  then have "CR \<notin> set (join_lines (map strip (split_lines s)))"
    by (rule join_lines_no_CR)
  then show ?thesis
    by (simp add: cleanForDigest_join_split ensure_trailing_LF_def)
qed

text \<open>
  C3, as the code has it. \<open>_cleanForDigest(s)\<close> is \<open>s\<close> cut into lines at every CR,
  LF or CRLF, each line stripped of its trailing and of its leading spaces and
  tabs, the lines joined by single LFs, and one LF appended when that text does not
  end with an LF already. So the result has no CR and ends with an LF; the empty
  lines at the end of \<open>s\<close> stay.
\<close>

theorem cleanForDigest_canonical:
  "cleanForDigest s = ensure_trailing_LF (join_lines (map strip (split_lines s))) \<and>
   CR \<notin> set (cleanForDigest s) \<and>
   endswith_LF (cleanForDigest s)"
  using cleanForDigest_join_split [of s] cleanForDigest_no_CR [of s]
    ensure_trailing_LF_ends [of "join_lines (map strip (split_lines s))"]
  by simp

text \<open>
  C3, as stated, fails in its last part: a text that ends with two LFs keeps both,
  so the result does not end with exactly one LF.
\<close>

theorem cleanForDigest_two_LF_counterexample:
  "cleanForDigest (''a'' @ [LF, LF]) = ''a'' @ [LF, LF] \<and>
   \<not> exactly_one_trailing_LF (cleanForDigest (''a'' @ [LF, LF]))"
  by (simp add: cleanForDigest_def sub_abnormal_line_ending.simps is_blank_def
      endswith_LF_def exactly_one_trailing_LF_def)

text \<open>
  C4. The cleaning transform is idempotent: cleaning a cleaned byte string changes
  nothing.
\<close>

theorem cleanForDigest_idempotent: "cleanForDigest (cleanForDigest s) = cleanForDigest s"
proof -
  define ls where "ls = map strip (split_lines s)"
  have ne: "ls \<noteq> []" by (simp add: ls_def split_lines_not_Nil)
  have chars: "\<forall>l \<in> set ls. LF \<notin> set l \<and> CR \<notin> set l"
    using split_lines_line_chars set_strip unfolding ls_def by fastforce
  have stripped: "\<forall>l \<in> set ls. strip l = l"
    by (auto simp: ls_def strip_idem)
  have c1: "cleanForDigest s = ensure_trailing_LF (join_lines ls)"
    by (simp add: cleanForDigest_join_split ls_def)
  show ?thesis
  proof (cases "endswith_LF (join_lines ls)")
    case True
    then have "cleanForDigest s = join_lines ls"
      by (simp add: c1 ensure_trailing_LF_def)
    then show ?thesis
      using clean_fixpoint [OF ne chars stripped] True
      by (simp add: ensure_trailing_LF_def)
  next
    case False
    then have e: "cleanForDigest s = join_lines (ls @ [[]])"
      by (simp add: c1 ensure_trailing_LF_def join_lines_snoc_empty [OF ne])
    have "cleanForDigest (join_lines (ls @ [[]])) = ensure_trailing_LF (join_lines (ls @ [[]]))"
      by (rule clean_fixpoint) (use chars stripped in auto)
    also have "\<dots> = join_lines (ls @ [[]])"
      by (simp add: ensure_trailing_LF_def endswith_LF_def join_lines_snoc_empty [OF ne])
    finally show ?thesis by (simp add: e)
  qed
qed

subsection \<open>Validation of a descriptor\<close>

lemma at_most_longer_than: "at_most v n = (\<not> longer_than v n)"
  by (cases v) (auto simp: at_most_def longer_than_def)

lemma spec_server_constraints_code:
  "spec_server_constraints now srv =
     (MIN_IDENTITY_BYTES \<le> identityModulusBytes srv \<and>
      identityModulusBytes srv \<le> MAX_IDENTITY_BYTES \<and>
      \<not> published srv > now + 600 \<and>
      \<not> validUntil srv \<le> validAfter srv \<and>
      \<not> longer_than (contact srv) MAX_CONTACT \<and>
      \<not> longer_than (comments srv) MAX_COMMENTS \<and>
      \<not> longer_than (contactFingerprint srv) MAX_FINGERPRINT \<and>
      \<not> packetKeyModulusBytes srv \<noteq> PACKET_KEY_BYTES)"
  by (auto simp: spec_server_constraints_def at_most_longer_than MIN_IDENTITY_BYTES_def
      MAX_IDENTITY_BYTES_def PACKET_KEY_BYTES_def MAX_CONTACT_def MAX_COMMENTS_def
      MAX_FINGERPRINT_def)

lemma validate_accepts:
  "(validate now vd cd sd self = Inr ()) =
     (descriptorVersion (server self) = ''0.2'' \<and> cd = digest (server self) \<and>
      (already_validated vd cd \<or>
       (spec_constraints now self \<and> sd = Some cd \<and> mmtp_sections_ok self)))"
  unfolding spec_constraints_def spec_server_constraints_code
  by (auto simp: validate_def Let_def spec_incoming_constraint_def mmtp_sections_ok_def
      split: option.splits sum.splits)

lemma validate_rejects:
  assumes "descriptorVersion (server self) = ''0.2''" and "cd = digest (server self)"
    and "\<not> already_validated vd cd" and "\<not> spec_constraints now self"
    and "key_digest_present self"
  shows "\<exists>msg. validate now vd cd sd self = Inl (ConfigError msg)"
  using assms
  unfolding spec_constraints_def spec_server_constraints_code
  by (auto simp: validate_def Let_def spec_incoming_constraint_def key_digest_present_def
      split: option.splits sum.splits)

text \<open>
  C7, as the code has it. \<open>validate\<close> first requires \<^verbatim>\<open>Descriptor-Version\<close> 0.2 and a
  declared digest equal to the computed one, and then accepts at once a descriptor
  whose digest is among the already validated ones. Any other descriptor is
  accepted exactly when it meets the listed constraints and, besides, its signature
  verifies and signs the digest, its \<^verbatim>\<open>Incoming/MMTP\<close> and \<^verbatim>\<open>Outgoing/MMTP\<close> sections (if
  there) have version 0.1 and its \<^verbatim>\<open>Key-Digest\<close> is 20 bytes long. A descriptor of
  version 0.2 with the right digest, not validated before, that violates a listed
  constraint is refused with \<open>ConfigError\<close> (for one whose \<^verbatim>\<open>Incoming/MMTP\<close> section, if
  there, has a \<^verbatim>\<open>Key-Digest\<close>).
\<close>

theorem validate_constraints:
  "(validate now vd cd sd self = Inr ()) =
     (descriptorVersion (server self) = ''0.2'' \<and> cd = digest (server self) \<and>
      (already_validated vd cd \<or>
       (spec_constraints now self \<and> sd = Some cd \<and> mmtp_sections_ok self))) \<and>
   (descriptorVersion (server self) = ''0.2'' \<and> cd = digest (server self) \<and>
    \<not> already_validated vd cd \<and> \<not> spec_constraints now self \<and> key_digest_present self
      \<longrightarrow> (\<exists>msg. validate now vd cd sd self = Inl (ConfigError msg)))"
  using validate_accepts [of now vd cd sd self] validate_rejects [of self cd vd now sd]
  by blast

theorem validate_constraints_witness:
  "validate 1072915200 None ''D'' (Some ''D'') scenario_info = Inr () \<and>
   spec_constraints 1072915200 scenario_info \<and>
   \<not> spec_constraints 1072915200 never_valid_info \<and>
   key_digest_present never_valid_info \<and>
   (\<exists>msg. validate 1072915200 None ''D'' (Some ''D'') never_valid_info = Inl (ConfigError msg))"
proof -
  have a: "spec_constraints 1072915200 scenario_info"
    by (simp add: spec_constraints_def spec_server_constraints_def spec_incoming_constraint_def
        scenario_info_def scenario_server_def at_most_def)
  have b: "\<not> spec_constraints 1072915200 never_valid_info"
    by (simp add: spec_constraints_def spec_server_constraints_def never_valid_info_def
        scenario_info_def scenario_server_def)
  have c: "key_digest_present never_valid_info"
    by (simp add: key_digest_present_def never_valid_info_def scenario_info_def)
  have d: "mmtp_sections_ok scenario_info"
    by (simp add: mmtp_sections_ok_def scenario_info_def)
  have e: "descriptorVersion (server scenario_info) = ''0.2'' \<and>
           ''D'' = digest (server scenario_info) \<and>
           descriptorVersion (server never_valid_info) = ''0.2'' \<and>
           ''D'' = digest (server never_valid_info) \<and> \<not> already_validated None ''D''"
    by (simp add: never_valid_info_def scenario_info_def scenario_server_def
        already_validated_def)
  show ?thesis
    using validate_constraints [of 1072915200 None "''D''" "Some ''D''" scenario_info]
      validate_constraints [of 1072915200 None "''D''" "Some ''D''" never_valid_info]
      a b c d e
    by blast
qed

text \<open>
  C7, as stated, fails: a descriptor that meets every listed constraint is not
  always accepted. The scenario descriptor meets them all, and it is refused when
  the computed digest differs from the declared one, and when the signature does
  not verify.
\<close>

theorem validate_constraints_counterexample:
  "spec_constraints 1072915200 scenario_info \<and>
   validate 1072915200 None ''X'' (Some ''X'') scenario_info = Inl (ConfigError ''Invalid digest'') \<and>
   validate 1072915200 None ''D'' None scenario_info = Inl (ConfigError ''Invalid signature'')"
  by (simp add: spec_constraints_def spec_server_constraints_def spec_incoming_constraint_def
      scenario_info_def scenario_server_def at_most_def validate_def
      already_validated_def MIN_IDENTITY_BYTES_def MAX_IDENTITY_BYTES_def PACKET_KEY_BYTES_def
      longer_than_def)

subsection \<open>Publication\<close>

lemma match_digit:
  "DIRECTORY_RESPONSE_RE_match s = Some (g, m) \<Longrightarrow> g = CHR ''0'' \<or> g = CHR ''1''"
  by (auto simp: DIRECTORY_RESPONSE_RE_match_def split: option.splits list.splits if_splits)

lemma search_from_digit:
  "DIRECTORY_RESPONSE_RE_search_from bol s = Some (g, m) \<Longrightarrow> g = CHR ''0'' \<or> g = CHR ''1''"
proof (induction s arbitrary: bol)
  case Nil
  then show ?case by simp
next
  case (Cons c s)
  show ?case
  proof (cases "if bol then DIRECTORY_RESPONSE_RE_match (c # s) else None")
    case None
    with Cons.prems have "DIRECTORY_RESPONSE_RE_search_from (c = LF) s = Some (g, m)"
      by simp
    then show ?thesis by (rule Cons.IH)
  next
    case (Some a)
    with Cons.prems have a: "a = (g, m)" by simp
    from Some a have "DIRECTORY_RESPONSE_RE_match (c # s) = Some (g, m)"
      by (simp split: if_splits)
    then show ?thesis by (rule match_digit)
  qed
qed

text \<open>
  The search of the pattern, line by line: \<^verbatim>\<open>DIRECTORY_RESPONSE_RE.search\<close> finds the
  first status line that has a message line right after it.
\<close>

lemma lines_LF_not_Nil: "lines_LF s \<noteq> []"
  by (induction s) (auto split: list.splits)

lemma lines_LF_line:
  assumes "LF \<notin> set l"
  shows "lines_LF (l @ LF # rest) = l # lines_LF rest" and "lines_LF l = [l]"
  using assms by (induction l) auto

lemma split_at_LF:
  "LF \<in> set s \<Longrightarrow> \<exists>l rest. s = l @ LF # rest \<and> LF \<notin> set l"
  by (meson split_list_first)

lemma strip_prefix_line:
  assumes "LF \<notin> set p"
  shows "strip_prefix p (l @ LF # rest) = map_option (\<lambda>r. r @ LF # rest) (strip_prefix p l)"
proof (cases "length p \<le> length l")
  case True
  then show ?thesis by (simp add: strip_prefix_def)
next
  case False
  then have short: "length l < length p" by simp
  have "take (length p) (l @ LF # rest) \<noteq> p"
  proof
    assume eq: "take (length p) (l @ LF # rest) = p"
    have "LF \<in> set (take (length p) (l @ LF # rest))"
      using short by (auto simp: take_Cons' )
    with eq assms show False by simp
  qed
  moreover have "take (length p) l \<noteq> p" using short by (metis nat_less_le take_all)
  ultimately show ?thesis by (simp add: strip_prefix_def)
qed


lemma strip_prefix_suffix: "strip_prefix p s = Some r \<Longrightarrow> set r \<subseteq> set s"
  by (auto simp: strip_prefix_def split: if_splits dest: in_set_dropD)

lemma match_needs_LF:
  "DIRECTORY_RESPONSE_RE_match s = Some x \<Longrightarrow> LF \<in> set s"
proof -
  assume a: "DIRECTORY_RESPONSE_RE_match s = Some x"
  then obtain r1 where r1: "strip_prefix ''Status: '' s = Some r1"
    by (auto simp: DIRECTORY_RESPONSE_RE_match_def split: option.splits)
  with a obtain g r2 where r2: "r1 = g # r2"
    by (auto simp: DIRECTORY_RESPONSE_RE_match_def split: list.splits)
  with a r1 obtain r3 where r3: "dropWhile is_blank r2 = LF # r3"
    by (auto simp: DIRECTORY_RESPONSE_RE_match_def split: list.splits if_splits)
  have "LF \<in> set (dropWhile is_blank r2)" by (simp add: r3)
  then have "LF \<in> set r2" by (rule set_dropWhileD)
  with r2 have "LF \<in> set r1" by simp
  with strip_prefix_suffix [OF r1] show ?thesis by auto
qed

lemma search_no_LF: "LF \<notin> set s \<Longrightarrow> DIRECTORY_RESPONSE_RE_search_from bol s = None"
proof (induction s arbitrary: bol)
  case Nil
  then show ?case by simp
next
  case (Cons c s)
  have "DIRECTORY_RESPONSE_RE_match (c # s) = None"
    using match_needs_LF [of "c # s"] Cons.prems by (cases "DIRECTORY_RESPONSE_RE_match (c # s)") auto
  with Cons show ?case by simp
qed

lemma search_inside_line:
  "LF \<notin> set l \<Longrightarrow>
   DIRECTORY_RESPONSE_RE_search_from False (l @ LF # rest) =
   DIRECTORY_RESPONSE_RE_search_from True rest"
  by (induction l) auto

lemma search_line:
  assumes "LF \<notin> set l"
  shows "DIRECTORY_RESPONSE_RE_search_from True (l @ LF # rest) =
     (case DIRECTORY_RESPONSE_RE_match (l @ LF # rest) of
        Some x \<Rightarrow> Some x
      | None \<Rightarrow> DIRECTORY_RESPONSE_RE_search_from True rest)"
proof (cases l)
  case Nil
  then show ?thesis by (simp split: option.split)
next
  case (Cons c l')
  with assms have "c \<noteq> LF" "LF \<notin> set l'" by auto
  with Cons show ?thesis using search_inside_line [of l' rest] by (simp split: option.split)
qed

lemma dropWhile_blank_line:
  assumes "LF \<notin> set bl"
  shows "dropWhile is_blank (bl @ LF # rest) =
           (if list_all is_blank bl then LF # rest else dropWhile is_blank bl @ LF # rest)"
proof (cases "list_all is_blank bl")
  case True
  then have "\<forall>x \<in> set bl. is_blank x" by (simp add: list_all_iff)
  then have "dropWhile is_blank (bl @ LF # rest) = dropWhile is_blank (LF # rest)"
    by (rule dropWhile_all)
  with True show ?thesis by simp
next
  case False
  then obtain x where "x \<in> set bl" "\<not> is_blank x" by (auto simp: list_all_iff)
  then have "dropWhile is_blank (bl @ LF # rest) = dropWhile is_blank bl @ LF # rest"
    by (rule dropWhile_append1)
  with False show ?thesis by simp
qed

lemma match_line:
  assumes "LF \<notin> set l"
  shows "DIRECTORY_RESPONSE_RE_match (l @ LF # rest) =
     (case status_of_line l of
        None \<Rightarrow> None
      | Some g \<Rightarrow>
          (case strip_prefix ''Message: '' rest of
             None \<Rightarrow> None
           | Some r4 \<Rightarrow> Some (g, takeWhile (\<lambda>c. c \<noteq> LF) r4)))"
proof -
  have noLF: "LF \<notin> set ''Status: ''" by simp
  note sp = strip_prefix_line [OF noLF, of l rest]
  show ?thesis
  proof (cases "strip_prefix ''Status: '' l")
    case None
    with sp show ?thesis
      by (simp add: DIRECTORY_RESPONSE_RE_match_def status_of_line_def)
  next
    case (Some r)
    have rsub: "set r \<subseteq> set l" by (rule strip_prefix_suffix [OF Some])
    show ?thesis
    proof (cases r)
      case Nil
      with Some sp show ?thesis
        by (simp add: DIRECTORY_RESPONSE_RE_match_def status_of_line_def)
    next
      case (Cons g bl)
      with rsub assms have bl: "LF \<notin> set bl" by auto
      show ?thesis
      proof (cases "list_all is_blank bl")
        case True
        with Some sp Cons dropWhile_blank_line [OF bl, of rest] show ?thesis
          by (simp add: DIRECTORY_RESPONSE_RE_match_def status_of_line_def)
      next
        case False
        then obtain d r3 where d: "dropWhile is_blank bl = d # r3"
          by (cases "dropWhile is_blank bl") (auto simp: list_all_iff)
        have "d \<in> set bl" using set_dropWhileD [of d is_blank bl] d by simp
        with bl have "d \<noteq> LF" by auto
        with False Some sp Cons d dropWhile_blank_line [OF bl, of rest] show ?thesis
          by (simp add: DIRECTORY_RESPONSE_RE_match_def status_of_line_def)
      qed
    qed
  qed
qed

lemma message_first_line:
  "map_option (takeWhile (\<lambda>c. c \<noteq> LF)) (strip_prefix ''Message: '' rest) =
   message_of_line (hd (lines_LF rest))"
proof (cases "LF \<in> set rest")
  case False
  then have h: "hd (lines_LF rest) = rest" by (simp add: lines_LF_line)
  show ?thesis
  proof (cases "strip_prefix ''Message: '' rest")
    case None
    with h show ?thesis by (simp add: message_of_line_def)
  next
    case (Some r4)
    then have "set r4 \<subseteq> set rest" by (rule strip_prefix_suffix)
    with False have "takeWhile (\<lambda>c. c \<noteq> LF) r4 = r4" by (auto intro: takeWhile_eq_all_conv [THEN iffD2])
    with Some h show ?thesis by (simp add: message_of_line_def)
  qed
next
  case True
  then obtain m rest' where d: "rest = m @ LF # rest'" "LF \<notin> set m"
    using split_at_LF by blast
  then have h: "hd (lines_LF rest) = m" by (simp add: lines_LF_line)
  have noLF: "LF \<notin> set ''Message: ''" by simp
  note sp = strip_prefix_line [OF noLF, of m rest']
  show ?thesis
  proof (cases "strip_prefix ''Message: '' m")
    case None
    with sp d h show ?thesis by (simp add: message_of_line_def)
  next
    case (Some r)
    then have "set r \<subseteq> set m" by (rule strip_prefix_suffix)
    with d have "LF \<notin> set r" by auto
    then have "takeWhile (\<lambda>c. c \<noteq> LF) (r @ LF # rest') = r"
      by (induction r) auto
    with Some sp d h show ?thesis by (simp add: message_of_line_def)
  qed
qed

lemma search_from_lines:
  "DIRECTORY_RESPONSE_RE_search_from True s = first_status (lines_LF s)"
proof (induction "length s" arbitrary: s rule: less_induct)
  case less
  show ?case
  proof (cases "LF \<in> set s")
    case False
    then show ?thesis by (simp add: search_no_LF lines_LF_line)
  next
    case True
    then obtain l rest where d: "s = l @ LF # rest" "LF \<notin> set l"
      using split_at_LF by blast
    have IH: "DIRECTORY_RESPONSE_RE_search_from True rest = first_status (lines_LF rest)"
      by (rule less) (simp add: d)
    obtain m ls where ml: "lines_LF rest = m # ls"
      using lines_LF_not_Nil [of rest] by (cases "lines_LF rest") auto
    have msg: "map_option (takeWhile (\<lambda>c. c \<noteq> LF)) (strip_prefix ''Message: '' rest) =
               message_of_line m"
      using message_first_line [of rest] ml by simp
    have lines: "lines_LF s = l # m # ls" using d ml by (simp add: lines_LF_line)
    show ?thesis
    proof (cases "status_of_line l")
      case None
      with d IH ml lines show ?thesis by (simp add: search_line match_line)
    next
      case (Some g)
      show ?thesis
      proof (cases "strip_prefix ''Message: '' rest")
        case None
        with msg have "message_of_line m = None" by simp
        with Some None d IH ml lines show ?thesis by (simp add: search_line match_line)
      next
        case r4: (Some r4)
        with msg have "message_of_line m = Some (takeWhile (\<lambda>c. c \<noteq> LF) r4)" by simp
        with Some r4 d lines show ?thesis by (simp add: search_line match_line)
      qed
    qed
  qed
qed

lemma search_lines: "DIRECTORY_RESPONSE_RE_search body = first_status (lines_LF body)"
  by (simp add: DIRECTORY_RESPONSE_RE_search_def search_from_lines)

lemma status_line_cases:
  "status_line reply = None \<or> status_line reply = Some (CHR ''0'') \<or>
   status_line reply = Some (CHR ''1'')"
proof (cases reply)
  case NetworkFailure
  then show ?thesis by (simp add: status_line_def)
next
  case (Reply ct body)
  show ?thesis
  proof (cases "first_status (lines_LF body)")
    case None
    with Reply show ?thesis by (simp add: status_line_def)
  next
    case (Some a)
    obtain g m where a: "a = (g, m)" by (cases a)
    with Some have "DIRECTORY_RESPONSE_RE_search_from True body = Some (g, m)"
      by (simp add: search_from_lines)
    then have "g = CHR ''0'' \<or> g = CHR ''1''" by (rule search_from_digit)
    with Reply Some a show ?thesis by (auto simp: status_line_def)
  qed
qed

lemma publish_by_status_line:
  "publish clock reply ks =
     (case status_line reply of
        None \<Rightarrow> (Error, ks)
      | Some d \<Rightarrow> if d = CHR ''1'' then (Accept, markAsPublished clock ks) else (Reject, ks))"
  by (cases reply)
     (auto simp: publish_def status_line_def search_lines Let_def split: option.splits)

lemma publish_by_outcome:
  "publish clock reply ks =
     (outcome reply,
      if outcome reply = Accept
      then ks \<lparr> publishedFile := Some clock, publishedFlag := True \<rparr> else ks)"
  by (simp add: publish_by_status_line outcome_def markAsPublished_def split: option.splits)

lemma publishKeys_loop_closed:
  "publishKeys_loop clock directory i rejected kss =
     (let sts = statuses_from directory i kss; n = answered sts
      in (take n (published_from clock directory i kss) @ drop n kss,
          if Error \<in> set sts then None else Some (rejected + count_list sts Reject)))"
proof (induction kss arbitrary: i rejected)
  case Nil
  then show ?case
    by (simp add: statuses_from_def published_from_def answered_def)
next
  case (Cons ks rest)
  show ?case
  proof (cases "outcome (directory i)")
    case Error
    then show ?thesis
      by (simp add: publish_by_outcome statuses_from_def published_from_def answered_def Let_def)
  next
    case Reject
    then show ?thesis
      using Cons.IH [of "Suc i" "rejected + 1"]
      by (simp add: publish_by_outcome statuses_from_def published_from_def answered_def Let_def)
  next
    case Accept
    then show ?thesis
      using Cons.IH [of "Suc i" rejected]
      by (simp add: publish_by_outcome statuses_from_def published_from_def answered_def Let_def)
  qed
qed

lemma count_list_0_iff: "(count_list xs x = 0) = (x \<notin> set xs)"
  by (induction xs) auto

lemma publishKeys_result:
  "publishKeys clock directory allKeys kr =
     (if \<not> allKeys \<and> selected allKeys kr = [] then ([], None)
      else
        (take (answered (statuses_from directory 0 (selected allKeys kr)))
           (published_from clock directory 0 (selected allKeys kr)) @
         drop (answered (statuses_from directory 0 (selected allKeys kr))) (selected allKeys kr),
         Some (if Error \<in> set (statuses_from directory 0 (selected allKeys kr)) \<or>
                  Reject \<in> set (statuses_from directory 0 (selected allKeys kr))
               then 0 else 1)))"
  by (auto simp: publishKeys_def selected_def Let_def publishKeys_loop_closed count_list_0_iff
      split: prod.splits option.splits)

text \<open>
  C8, as the code has it. The status of a reply is that of its first status line
  (\<^verbatim>\<open>Status: \<close>, 0 or 1, then spaces and tabs only, up to the LF) that has a line
  starting with \<^verbatim>\<open>Message: \<close> right after it, on whatever line of the body it stands.
  \<open>publish\<close> returns \<open>Accept\<close> and writes the marker exactly when the reply is
  \<^verbatim>\<open>text/plain\<close> and has the status 1; with the status 0 it returns \<open>Reject\<close> and
  leaves the key set as it is; for any other reply and for a network exception it
  returns \<open>Error\<close> and leaves the key set as it is. \<open>publishKeys\<close> goes through the
  key sets it selected up to the first error: those before it are marked when they
  were accepted and unchanged when they were rejected (the batch goes on after a
  rejection), those from the error on are untouched. Its loop ends without a count
  after an error and counts the rejections otherwise; \<open>publishKeys\<close> returns 0
  when there was an error or a rejection, and 1 otherwise (and nothing when it had
  no key set to publish).
\<close>

theorem publish_outcomes:
  "publish clock reply ks =
     (case status_line reply of
        None \<Rightarrow> (Error, ks)
      | Some d \<Rightarrow>
          if d = CHR ''1''
          then (Accept, ks \<lparr> publishedFile := Some clock, publishedFlag := True \<rparr>)
          else (Reject, ks)) \<and>
   (status_line reply = None \<or> status_line reply = Some (CHR ''0'') \<or>
    status_line reply = Some (CHR ''1'')) \<and>
   publishKeys_loop clock directory 0 0 kss =
     (take (answered (statuses_from directory 0 kss)) (published_from clock directory 0 kss) @
        drop (answered (statuses_from directory 0 kss)) kss,
      if Error \<in> set (statuses_from directory 0 kss) then None
      else Some (count_list (statuses_from directory 0 kss) Reject)) \<and>
   publishKeys clock directory allKeys kr =
     (if \<not> allKeys \<and> selected allKeys kr = [] then ([], None)
      else
        (take (answered (statuses_from directory 0 (selected allKeys kr)))
           (published_from clock directory 0 (selected allKeys kr)) @
         drop (answered (statuses_from directory 0 (selected allKeys kr))) (selected allKeys kr),
         Some (if Error \<in> set (statuses_from directory 0 (selected allKeys kr)) \<or>
                  Reject \<in> set (statuses_from directory 0 (selected allKeys kr))
               then 0 else 1)))"
proof (intro conjI)
  show "publish clock reply ks =
     (case status_line reply of
        None \<Rightarrow> (Error, ks)
      | Some d \<Rightarrow>
          if d = CHR ''1''
          then (Accept, ks \<lparr> publishedFile := Some clock, publishedFlag := True \<rparr>)
          else (Reject, ks))"
    using publish_by_status_line [of clock reply ks] unfolding markAsPublished_def by simp
next
  show "status_line reply = None \<or> status_line reply = Some (CHR ''0'') \<or>
    status_line reply = Some (CHR ''1'')"
    by (rule status_line_cases)
next
  show "publishKeys_loop clock directory 0 0 kss =
     (take (answered (statuses_from directory 0 kss)) (published_from clock directory 0 kss) @
        drop (answered (statuses_from directory 0 kss)) kss,
      if Error \<in> set (statuses_from directory 0 kss) then None
      else Some (count_list (statuses_from directory 0 kss) Reject))"
    using publishKeys_loop_closed [of clock directory 0 0 kss] unfolding Let_def by simp
next
  show "publishKeys clock directory allKeys kr =
     (if \<not> allKeys \<and> selected allKeys kr = [] then ([], None)
      else
        (take (answered (statuses_from directory 0 (selected allKeys kr)))
           (published_from clock directory 0 (selected allKeys kr)) @
         drop (answered (statuses_from directory 0 (selected allKeys kr))) (selected allKeys kr),
         Some (if Error \<in> set (statuses_from directory 0 (selected allKeys kr)) \<or>
                  Reject \<in> set (statuses_from directory 0 (selected allKeys kr))
               then 0 else 1)))"
    by (rule publishKeys_result)
qed

lemma status_line_examples:
  "status_line reply_accept = Some (CHR ''1'')"
  "status_line reply_reject = Some (CHR ''0'')"
  "status_line reply_html = None"
  "status_line NetworkFailure = None"
  "status_line reply_second_line = Some (CHR ''1'')"
  by (simp_all add: status_line_def reply_accept_def reply_reject_def reply_html_def
      reply_second_line_def status_of_line_def message_of_line_def strip_prefix_def
      is_blank_def)

lemma outcome_examples:
  "outcome reply_accept = Accept"
  "outcome reply_reject = Reject"
  "outcome reply_html = Error"
  "outcome NetworkFailure = Error"
  by (simp_all add: outcome_def status_line_examples)

text \<open>
  The theorem at the three kinds of reply, at a reply whose status line is the
  second line of the body, and at a batch of four key sets. With the replies
  accept, reject, network failure, accept, the first key set is marked, the batch
  stops at the third and \<open>publishKeys\<close> returns 0; with the replies accept, reject,
  accept, accept, all but the second are marked, one rejection is counted and
  \<open>publishKeys\<close> returns 0.
\<close>

theorem publish_outcomes_witness:
  "publish 99 reply_accept keyset_0001 =
     (Accept, keyset_0001 \<lparr> publishedFile := Some 99, publishedFlag := True \<rparr>) \<and>
   publish 99 reply_reject keyset_0001 = (Reject, keyset_0001) \<and>
   publish 99 reply_html keyset_0001 = (Error, keyset_0001) \<and>
   publish 99 reply_second_line keyset_0001 =
     (Accept, keyset_0001 \<lparr> publishedFile := Some 99, publishedFlag := True \<rparr>) \<and>
   publishKeys_loop 99 directory_are 0 0 [keyset_0001, keyset_0002, keyset_0003, keyset_0004] =
     ([keyset_0001 \<lparr> publishedFile := Some 99, publishedFlag := True \<rparr>,
       keyset_0002, keyset_0003, keyset_0004], None) \<and>
   publishKeys 99 directory_are True keyring_four =
     ([keyset_0001 \<lparr> publishedFile := Some 99, publishedFlag := True \<rparr>,
       keyset_0002, keyset_0003, keyset_0004], Some 0) \<and>
   publishKeys_loop 99 directory_ara 0 0 [keyset_0001, keyset_0002, keyset_0003, keyset_0004] =
     ([keyset_0001 \<lparr> publishedFile := Some 99, publishedFlag := True \<rparr>,
       keyset_0002,
       keyset_0003 \<lparr> publishedFile := Some 99, publishedFlag := True \<rparr>,
       keyset_0004 \<lparr> publishedFile := Some 99, publishedFlag := True \<rparr>], Some 1) \<and>
   publishKeys 99 directory_ara True keyring_four =
     ([keyset_0001 \<lparr> publishedFile := Some 99, publishedFlag := True \<rparr>,
       keyset_0002,
       keyset_0003 \<lparr> publishedFile := Some 99, publishedFlag := True \<rparr>,
       keyset_0004 \<lparr> publishedFile := Some 99, publishedFlag := True \<rparr>], Some 0)"
proof -
  let ?kss = "[keyset_0001, keyset_0002, keyset_0003, keyset_0004]"
  have sel: "selected True keyring_four = ?kss"
    by (simp add: selected_def keyring_four_def)
  have are: "statuses_from directory_are 0 ?kss = [Accept, Reject, Error, Accept]"
    by (simp add: statuses_from_def directory_are_def outcome_examples)
  have ara: "statuses_from directory_ara 0 ?kss = [Accept, Reject, Accept, Accept]"
    by (simp add: statuses_from_def directory_ara_def outcome_examples)
  have p_are: "take (Suc (Suc 0)) (published_from 99 directory_are 0 ?kss) =
      [keyset_0001 \<lparr> publishedFile := Some 99, publishedFlag := True \<rparr>, keyset_0002]"
    by (simp add: published_from_def directory_are_def outcome_examples)
  have p_ara: "published_from 99 directory_ara 0 ?kss =
      [keyset_0001 \<lparr> publishedFile := Some 99, publishedFlag := True \<rparr>, keyset_0002,
       keyset_0003 \<lparr> publishedFile := Some 99, publishedFlag := True \<rparr>,
       keyset_0004 \<lparr> publishedFile := Some 99, publishedFlag := True \<rparr>]"
    by (simp add: published_from_def directory_ara_def outcome_examples)
  show ?thesis
    using publish_outcomes [of 99 reply_accept keyset_0001 directory_are ?kss True keyring_four]
      publish_outcomes [of 99 reply_reject keyset_0001 directory_ara ?kss True keyring_four]
      publish_outcomes [of 99 reply_html keyset_0001 directory_ara ?kss True keyring_four]
      publish_outcomes [of 99 reply_second_line keyset_0001 directory_ara ?kss True keyring_four]
    by (simp add: sel are ara p_are p_ara answered_def status_line_examples
        del: publishKeys_loop.simps)
qed

text \<open>
  C8, as stated, fails: the pattern of the specification has \<^verbatim>\<open>\s*\<close> where the code
  has \<^verbatim>\<open>[ \t]*\<close>. The \<^verbatim>\<open>text/plain\<close> reply \<^verbatim>\<open>Status: 1\<close>, CR, LF, \<^verbatim>\<open>Message: ok\<close> matches
  the pattern of the specification with \<^verbatim>\<open>Status: 1\<close>, and \<open>publish\<close> returns \<open>Error\<close>
  for it and writes no marker.
\<close>

theorem publish_outcomes_counterexample:
  "spec_status_pattern body_crlf = Some (CHR ''1'', ''ok'') \<and>
   reply_crlf = Reply (Some ''text/plain'') body_crlf \<and>
   publish 99 reply_crlf keyset_0001 = (Error, keyset_0001)"
  by (simp add: spec_status_pattern_def body_crlf_def reply_crlf_def strip_prefix_def
      is_space_def publish_def DIRECTORY_RESPONSE_RE_search_def DIRECTORY_RESPONSE_RE_match_def
      is_blank_def)

subsection \<open>Key generation\<close>

lemma previousMidnight_plus:
  "x mod 86400 = 0 \<Longrightarrow> 0 \<le> d \<Longrightarrow> d < 86400 \<Longrightarrow> previousMidnight (x + d) = x"
proof -
  assume a: "x mod 86400 = 0" "0 \<le> d" "d < 86400"
  have "(x + d) mod 86400 = (x mod 86400 + d mod 86400) mod 86400"
    by (rule mod_add_eq [symmetric])
  with a have "(x + d) mod 86400 = d" by simp
  then show ?thesis by (simp add: previousMidnight_def)
qed

lemma previousMidnight_midnight: "previousMidnight x mod 86400 = 0"
  by (simp add: previousMidnight_def minus_mod_eq_mult_div)

lemma previousMidnight_le: "previousMidnight x \<le> x"
  by (simp add: previousMidnight_def)

lemma generate_midnight:
  assumes "S mod 86400 = 0" "S \<noteq> 0"
  shows "entry_key (generateServerDescriptorAndKeys clock L k S) = (S, S + L)"
  using assms previousMidnight_plus [of S 30]
  by (simp add: generateServerDescriptorAndKeys_def entry_key_def Let_def)

lemma loop_nonempty: "createKeys_loop clock L (Suc n) S r \<noteq> []"
  by (cases r) (simp add: Let_def split: prod.splits)

lemma loop_Suc:
  "\<exists>k r'. createKeys_loop clock L (Suc n) S r =
      generateServerDescriptorAndKeys clock L k S # createKeys_loop clock L n (S + L) r'"
  by (cases r) (auto simp: Let_def split: prod.splits)

lemma loop_lower:
  assumes "L mod 86400 = 0" "0 < L"
  shows "S mod 86400 = 0 \<Longrightarrow> 0 < S \<Longrightarrow> e \<in> set (createKeys_loop clock L n S r) \<Longrightarrow>
         S \<le> fst (entry_key e)"
proof (induction n arbitrary: S r)
  case 0
  then show ?case by (cases r) simp
next
  case (Suc n)
  obtain k r' where eq: "createKeys_loop clock L (Suc n) S r =
      generateServerDescriptorAndKeys clock L k S # createKeys_loop clock L n (S + L) r'"
    using loop_Suc by blast
  from Suc.prems(3) eq consider "e = generateServerDescriptorAndKeys clock L k S"
    | "e \<in> set (createKeys_loop clock L n (S + L) r')" by auto
  then show ?case
  proof cases
    case 1
    then show ?thesis using generate_midnight [of S clock L k] Suc.prems by simp
  next
    case 2
    have m: "(S + L) mod 86400 = 0"
      using Suc.prems(1) assms(1) mod_add_eq [of S 86400 L] by simp
    have p: "0 < S + L" using Suc.prems(2) assms(2) by simp
    have "S + L \<le> fst (entry_key e)" by (rule Suc.IH [OF m p 2])
    then show ?thesis using assms(2) by simp
  qed
qed


lemma loop_sorted:
  assumes "L mod 86400 = 0" "0 < L"
  shows "S mod 86400 = 0 \<Longrightarrow> 0 < S \<Longrightarrow> sorted (map entry_key (createKeys_loop clock L n S r))"
proof (induction n arbitrary: S r)
  case 0
  then show ?case by (cases r) simp
next
  case (Suc n)
  obtain k r' where eq: "createKeys_loop clock L (Suc n) S r =
      generateServerDescriptorAndKeys clock L k S # createKeys_loop clock L n (S + L) r'"
    using loop_Suc by blast
  have m: "(S + L) mod 86400 = 0"
    using Suc.prems(1) assms(1) mod_add_eq [of S 86400 L] by simp
  have p: "0 < S + L" using Suc.prems(2) assms(2) by simp
  have rest: "sorted (map entry_key (createKeys_loop clock L n (S + L) r'))"
    by (rule Suc.IH [OF m p])
  have hd: "entry_key (generateServerDescriptorAndKeys clock L k S) = (S, S + L)"
    using generate_midnight [of S clock L k] Suc.prems by simp
  have "\<forall>e \<in> set (createKeys_loop clock L n (S + L) r'). (S, S + L) \<le> entry_key e"
  proof
    fix e assume "e \<in> set (createKeys_loop clock L n (S + L) r')"
    then have "S + L \<le> fst (entry_key e)" by (rule loop_lower [OF assms m p])
    with assms(2) have "S < fst (entry_key e)" by simp
    then show "(S, S + L) \<le> entry_key e" by (cases "entry_key e") simp
  qed
  with rest hd eq show ?case by simp
qed

lemma loop_last:
  assumes "L mod 86400 = 0" "0 < L"
  shows "S mod 86400 = 0 \<Longrightarrow> 0 < S \<Longrightarrow>
         fst (snd (last (createKeys_loop clock L (Suc n) S r))) = S + (int n + 1) * L"
proof (induction n arbitrary: S r)
  case 0
  obtain k r' where eq: "createKeys_loop clock L (Suc 0) S r =
      generateServerDescriptorAndKeys clock L k S # createKeys_loop clock L 0 (S + L) r'"
    using loop_Suc by blast
  have "createKeys_loop clock L 0 (S + L) r' = []" by (cases r') simp
  with eq show ?case
    using generate_midnight [of S clock L k] 0 by (simp add: entry_key_def)
next
  case (Suc n)
  obtain k r' where eq: "createKeys_loop clock L (Suc (Suc n)) S r =
      generateServerDescriptorAndKeys clock L k S # createKeys_loop clock L (Suc n) (S + L) r'"
    using loop_Suc by blast
  have m: "(S + L) mod 86400 = 0"
    using Suc.prems(1) assms(1) mod_add_eq [of S 86400 L] by simp
  have p: "0 < S + L" using Suc.prems(2) assms(2) by simp
  have "fst (snd (last (createKeys_loop clock L (Suc n) (S + L) r'))) = S + L + (int n + 1) * L"
    by (rule Suc.IH [OF m p])
  then show ?case
    using eq loop_nonempty [of clock L n "S + L" r'] by (simp add: algebra_simps)
qed

lemma ceilDiv_covers:
  fixes a b :: int
  assumes "0 < b"
  shows "a \<le> ((a - 1) div b + 1) * b"
proof -
  have "a - 1 = (a - 1) div b * b + (a - 1) mod b" by simp
  moreover have "(a - 1) mod b < b" using assms by simp
  ultimately have "a - 1 < (a - 1) div b * b + b" by linarith
  then show ?thesis by (simp add: algebra_simps)
qed

lemma ceilDiv_pos:
  fixes a b :: int
  assumes "0 < b" "0 < a"
  shows "0 < (a - 1) div b + 1"
proof -
  have "0 \<le> (a - 1) div b" using assms by (simp add: pos_imp_zdiv_nonneg_iff)
  then show ?thesis by simp
qed

lemma sorted_key_last:
  "sorted (map f xs) \<Longrightarrow> x \<in> set xs \<Longrightarrow> f x \<le> f (last xs)"
proof (induction xs)
  case Nil
  then show ?case by simp
next
  case (Cons a xs)
  then show ?case by (cases "xs = []") auto
qed


lemma createKeys_last:
  assumes L: "publicKeyLifetime kr mod 86400 = 0" "0 < publicKeyLifetime kr"
    and S: "S = previousMidnight (if keySets kr \<noteq> [] then fst (snd (last (keySets kr))) + 60
                                  else clock + 60)" "0 < S"
    and old: "sorted (map entry_key (keySets kr))" "\<forall>e \<in> set (keySets kr). fst (entry_key e) < S"
    and num: "0 < num"
  shows "keySets (createKeys clock num None kr) \<noteq> [] \<and>
         fst (snd (last (keySets (createKeys clock num None kr)))) = S + num * publicKeyLifetime kr"
proof -
  let ?L = "publicKeyLifetime kr"
  obtain m where m: "nat num = Suc m" using num by (cases "nat num") auto
  let ?new = "createKeys_loop clock ?L (Suc m) S (keyRange kr)"
  have Sm: "S mod 86400 = 0" unfolding S(1) by (rule previousMidnight_midnight)
  have new_sorted: "sorted (map entry_key ?new)" by (rule loop_sorted [OF L Sm S(2)])
  have new_ne: "?new \<noteq> []" by (rule loop_nonempty)
  have cross: "\<forall>x \<in> set (keySets kr). \<forall>y \<in> set ?new. entry_key x \<le> entry_key y"
  proof (intro ballI)
    fix x y assume x: "x \<in> set (keySets kr)" and y: "y \<in> set ?new"
    have "S \<le> fst (entry_key y)" by (rule loop_lower [OF L Sm S(2) y])
    moreover have "fst (entry_key x) < S" using old(2) x by blast
    ultimately have "fst (entry_key x) < fst (entry_key y)" by simp
    then show "entry_key x \<le> entry_key y"
      by (cases "entry_key x"; cases "entry_key y") simp
  qed
  have "sorted (map entry_key (keySets kr @ ?new))"
    using old(1) new_sorted cross by (auto simp: sorted_append)
  then have sk: "sort_key entry_key (keySets kr @ ?new) = keySets kr @ ?new"
    by (rule sort_key_id_if_sorted)
  have ks: "keySets (createKeys clock num None kr) = keySets kr @ ?new"
    using sk m S(1) by (simp add: createKeys_def checkKeys_def Let_def)
  have "fst (snd (last ?new)) = S + (int m + 1) * ?L"
    by (rule loop_last [OF L Sm S(2)])
  moreover have "int m + 1 = num" using m num by linarith
  ultimately show ?thesis using ks new_ne by simp
qed

lemma createKeysAsNeeded_not_yet:
  assumes "keySets kr \<noteq> []"
    and "now + PUBLICATION_LATENCY - 10 < fst (snd (last (keySets kr)))"
  shows "createKeysAsNeeded clock (Some now) kr = Inr kr"
  using assms by (simp add: createKeysAsNeeded_def getNextKeygen_def Let_def)

lemma createKeysAsNeeded_unexpired:
  assumes wf: "well_formed kr" and ne: "keySets kr \<noteq> []" and now: "0 < now"
    and lo: "now \<le> fst (snd (last (keySets kr)))"
    and hi: "fst (snd (last (keySets kr))) \<le> now + PUBLICATION_LATENCY - 10"
  shows "\<exists>kr'. createKeysAsNeeded clock (Some now) kr = Inr kr' \<and>
               covers kr' (now + PREPUBLICATION_INTERVAL)"
proof -
  let ?E = "fst (snd (last (keySets kr)))"
  let ?L = "publicKeyLifetime kr"
  let ?T = "?E + PREPUBLICATION_INTERVAL - now"
  let ?n = "(?T - 1) div ?L + 1"
  from wf have L: "?L mod 86400 = 0" "0 < ?L"
    and srt: "sorted (map entry_key (keySets kr))"
    and all: "list_all (\<lambda>(va, vu, ks). va < vu \<and> va mod 86400 = 0 \<and> vu mod 86400 = 0) (keySets kr)"
    by (simp_all add: well_formed_def)
  have last_in: "last (keySets kr) \<in> set (keySets kr)" using ne by simp
  obtain va vu ks where lst: "last (keySets kr) = (va, vu, ks)" by (cases "last (keySets kr)")
  from all last_in lst have lastp: "va < vu" "vu mod 86400 = 0"
    by (auto simp: list_all_iff)
  have E: "?E = vu" using lst by simp
  have S: "previousMidnight (?E + 60) = ?E"
    using previousMidnight_plus [of vu 60] lastp(2) E by simp
  have Epos: "0 < ?E" using now lo by simp
  have below: "\<forall>e \<in> set (keySets kr). fst (entry_key e) < ?E"
  proof
    fix e assume e: "e \<in> set (keySets kr)"
    have "entry_key e \<le> entry_key (last (keySets kr))" by (rule sorted_key_last [OF srt e])
    then have "fst (entry_key e) \<le> va"
      using lst by (cases "entry_key e") (auto simp: entry_key_def)
    with lastp(1) E show "fst (entry_key e) < ?E" by simp
  qed
  have Tpos: "0 < ?T" using lo by (simp add: PREPUBLICATION_INTERVAL_def)
  have npos: "0 < ?n" by (rule ceilDiv_pos [OF L(2) Tpos])
  have cov: "?T \<le> ?n * ?L" by (rule ceilDiv_covers [OF L(2)])
  have res: "createKeysAsNeeded clock (Some now) kr = Inr (createKeys clock ?n None kr)"
    using ne hi L(2) by (simp add: createKeysAsNeeded_def getNextKeygen_def Let_def ceilDiv_def)
  have "keySets (createKeys clock ?n None kr) \<noteq> [] \<and>
        fst (snd (last (keySets (createKeys clock ?n None kr)))) = ?E + ?n * ?L"
    by (rule createKeys_last [OF L _ Epos srt below npos]) (simp add: ne S)
  then have "covers (createKeys clock ?n None kr) (now + PREPUBLICATION_INTERVAL)"
    using cov lo by (simp add: covers_def lastValidUntil_def)
  with res show ?thesis by blast
qed

lemma createKeysAsNeeded_empty:
  assumes emp: "keySets kr = []"
    and L: "publicKeyLifetime kr mod 86400 = 0" "0 < publicKeyLifetime kr"
    and now: "9 \<le> now" and clock: "86400 \<le> clock"
  shows "\<exists>kr'. createKeysAsNeeded clock (Some now) kr = Inr kr' \<and>
               covers kr' (previousMidnight (clock + 60) + PREPUBLICATION_INTERVAL)"
proof -
  let ?L = "publicKeyLifetime kr"
  let ?n = "(PREPUBLICATION_INTERVAL - 1) div ?L + 1"
  let ?S = "previousMidnight (clock + 60)"
  have "(clock + 60) mod 86400 < 86400" by simp
  then have Spos: "0 < ?S" using clock by (simp add: previousMidnight_def)
  have npos: "0 < ?n" by (rule ceilDiv_pos [OF L(2)]) (simp add: PREPUBLICATION_INTERVAL_def)
  have cov: "PREPUBLICATION_INTERVAL \<le> ?n * ?L" by (rule ceilDiv_covers [OF L(2)])
  have res: "createKeysAsNeeded clock (Some now) kr = Inr (createKeys clock ?n None kr)"
    using emp now L(2) by (simp add: createKeysAsNeeded_def getNextKeygen_def Let_def ceilDiv_def)
  have "keySets (createKeys clock ?n None kr) \<noteq> [] \<and>
        fst (snd (last (keySets (createKeys clock ?n None kr)))) = ?S + ?n * ?L"
    by (rule createKeys_last [OF L _ Spos _ _ npos]) (simp_all add: emp)
  then have "covers (createKeys clock ?n None kr) (?S + PREPUBLICATION_INTERVAL)"
    using cov by (simp add: covers_def lastValidUntil_def)
  with res show ?thesis by blast
qed


text \<open>
  C9, as the code has it. \<open>createKeysAsNeeded(now)\<close> creates key sets only when the
  last key set expires within \<^verbatim>\<open>PUBLICATION_LATENCY\<close> less 10 seconds of \<open>now\<close> (or there
  is none): as long as the last \<^verbatim>\<open>Valid-Until\<close> is later, it returns at once and the
  keyring stays as it is. On a well-formed keyring whose last key set has not
  expired (\<open>now \<le> Valid-Until \<le> now + PUBLICATION_LATENCY - 10\<close>), the coverage after
  the call extends to at least \<open>now + PREPUBLICATION_INTERVAL\<close>. On an empty keyring
  (and a lifetime of whole days) it extends to at least \<^verbatim>\<open>PREPUBLICATION_INTERVAL\<close> past
  the midnight before \<open>clock + 60\<close>, where the first key set starts.
\<close>

theorem createKeysAsNeeded_coverage:
  "(keySets kr \<noteq> [] \<and> now + PUBLICATION_LATENCY - 10 < lastValidUntil kr \<longrightarrow>
      createKeysAsNeeded clock (Some now) kr = Inr kr) \<and>
   (well_formed kr \<and> keySets kr \<noteq> [] \<and> 0 < now \<and> now \<le> lastValidUntil kr \<and>
    lastValidUntil kr \<le> now + PUBLICATION_LATENCY - 10 \<longrightarrow>
      (\<exists>kr'. createKeysAsNeeded clock (Some now) kr = Inr kr' \<and>
             covers kr' (now + PREPUBLICATION_INTERVAL))) \<and>
   (keySets kr = [] \<and> publicKeyLifetime kr mod 86400 = 0 \<and> 0 < publicKeyLifetime kr \<and>
    9 \<le> now \<and> 86400 \<le> clock \<longrightarrow>
      (\<exists>kr'. createKeysAsNeeded clock (Some now) kr = Inr kr' \<and>
             covers kr' (previousMidnight (clock + 60) + PREPUBLICATION_INTERVAL)))"
proof (intro conjI impI)
  assume "keySets kr \<noteq> [] \<and> now + PUBLICATION_LATENCY - 10 < lastValidUntil kr"
  then show "createKeysAsNeeded clock (Some now) kr = Inr kr"
    using createKeysAsNeeded_not_yet [of kr now clock] by (simp add: lastValidUntil_def)
next
  assume "well_formed kr \<and> keySets kr \<noteq> [] \<and> 0 < now \<and> now \<le> lastValidUntil kr \<and>
    lastValidUntil kr \<le> now + PUBLICATION_LATENCY - 10"
  then show "\<exists>kr'. createKeysAsNeeded clock (Some now) kr = Inr kr' \<and>
             covers kr' (now + PREPUBLICATION_INTERVAL)"
    using createKeysAsNeeded_unexpired [of kr now clock] by (simp add: lastValidUntil_def)
next
  assume "keySets kr = [] \<and> publicKeyLifetime kr mod 86400 = 0 \<and> 0 < publicKeyLifetime kr \<and>
    9 \<le> now \<and> 86400 \<le> clock"
  then show "\<exists>kr'. createKeysAsNeeded clock (Some now) kr = Inr kr' \<and>
             covers kr' (previousMidnight (clock + 60) + PREPUBLICATION_INTERVAL)"
    using createKeysAsNeeded_empty [of kr now clock] by simp
qed

lemma well_formed_keyring_until_0103: "well_formed keyring_until_0103"
  by (simp add: well_formed_def keyring_until_0103_def entry_key_def)

text \<open>
  The theorem on 2004-01-01 (1072915200): the keyring that is valid until
  2004-01-05 stays as it is; the one that is valid until 2004-01-03 is extended to
  cover two weeks; the empty one, at noon (1072958400), is extended to cover two
  weeks from the midnight before.
\<close>

theorem createKeysAsNeeded_coverage_witness:
  "keySets keyring_until_0105 \<noteq> [] \<and>
   1072915200 + PUBLICATION_LATENCY - 10 < lastValidUntil keyring_until_0105 \<and>
   createKeysAsNeeded 1072915200 (Some 1072915200) keyring_until_0105 = Inr keyring_until_0105 \<and>
   well_formed keyring_until_0103 \<and>
   1072915200 \<le> lastValidUntil keyring_until_0103 \<and>
   lastValidUntil keyring_until_0103 \<le> 1072915200 + PUBLICATION_LATENCY - 10 \<and>
   (\<exists>kr'. createKeysAsNeeded 1072915200 (Some 1072915200) keyring_until_0103 = Inr kr' \<and>
          covers kr' (1072915200 + PREPUBLICATION_INTERVAL)) \<and>
   keySets empty_keyring = [] \<and>
   (\<exists>kr'. createKeysAsNeeded 1072958400 (Some 1072958400) empty_keyring = Inr kr' \<and>
          covers kr' (previousMidnight (1072958400 + 60) + PREPUBLICATION_INTERVAL))"
proof -
  have a: "keySets keyring_until_0105 \<noteq> [] \<and>
           1072915200 + PUBLICATION_LATENCY - 10 < lastValidUntil keyring_until_0105"
    by (simp add: keyring_until_0105_def lastValidUntil_def PUBLICATION_LATENCY_def)
  have b: "well_formed keyring_until_0103 \<and> keySets keyring_until_0103 \<noteq> [] \<and>
           (0::int) < 1072915200 \<and>
           1072915200 \<le> lastValidUntil keyring_until_0103 \<and>
           lastValidUntil keyring_until_0103 \<le> 1072915200 + PUBLICATION_LATENCY - 10"
    using well_formed_keyring_until_0103
    by (simp add: keyring_until_0103_def lastValidUntil_def PUBLICATION_LATENCY_def)
  have c: "keySets empty_keyring = [] \<and> publicKeyLifetime empty_keyring mod 86400 = 0 \<and>
           0 < publicKeyLifetime empty_keyring \<and> (9::int) \<le> 1072958400 \<and>
           (86400::int) \<le> 1072958400"
    by (simp add: empty_keyring_def)
  have r1: "createKeysAsNeeded 1072915200 (Some 1072915200) keyring_until_0105 =
              Inr keyring_until_0105"
    by (rule createKeysAsNeeded_coverage [THEN conjunct1, THEN mp, OF a])
  have r2: "\<exists>kr'. createKeysAsNeeded 1072915200 (Some 1072915200) keyring_until_0103 = Inr kr' \<and>
          covers kr' (1072915200 + PREPUBLICATION_INTERVAL)"
    by (rule createKeysAsNeeded_coverage [THEN conjunct2, THEN conjunct1, THEN mp, OF b])
  have r3: "\<exists>kr'. createKeysAsNeeded 1072958400 (Some 1072958400) empty_keyring = Inr kr' \<and>
          covers kr' (previousMidnight (1072958400 + 60) + PREPUBLICATION_INTERVAL)"
    by (rule createKeysAsNeeded_coverage [THEN conjunct2, THEN conjunct2, THEN mp, OF c])
  from a b c r1 r2 r3 show ?thesis
    by (intro conjI) (elim conjE; assumption)+
qed

lemma createKeysAsNeeded_empty_at_noon:
  "createKeysAsNeeded 1072958400 (Some 1072958400) empty_keyring =
     Inr \<lparr> keySets =
             [(1072915200, 1073520000,
               \<lparr> keynum = 1, publishedFile = None, publishedFlag = False \<rparr>),
              (1073520000, 1074124800,
               \<lparr> keynum = 2, publishedFile = None, publishedFlag = False \<rparr>)],
            keyRange = (1, 2), keyOverlap = 0, publicKeyLifetime = 604800 \<rparr>"
  by (simp add: createKeysAsNeeded_def getNextKeygen_def empty_keyring_def Let_def ceilDiv_def
      PREPUBLICATION_INTERVAL_def createKeys_def numeral_2_eq_2 sys_maxint_def
      generateServerDescriptorAndKeys_def previousMidnight_def checkKeys_def entry_key_def)

text \<open>
  C9, as stated, fails. On 2004-01-01 the keyring whose last key set is valid until
  2004-01-05 is left as it is, since that is more than three days ahead, and its
  coverage ends ten days short of two weeks. The empty keyring, at noon of
  2004-01-01, gets two key sets of 7 days from the midnight before: its coverage
  ends on 2004-01-15 at 0:00 (1074124800), twelve hours short of two weeks.
\<close>

theorem createKeysAsNeeded_coverage_counterexample:
  "createKeysAsNeeded 1072915200 (Some 1072915200) keyring_until_0105 = Inr keyring_until_0105 \<and>
   \<not> covers keyring_until_0105 (1072915200 + PREPUBLICATION_INTERVAL) \<and>
   (\<exists>kr'. createKeysAsNeeded 1072958400 (Some 1072958400) empty_keyring = Inr kr' \<and>
          lastValidUntil kr' = 1074124800 \<and>
          \<not> covers kr' (1072958400 + PREPUBLICATION_INTERVAL))"
proof -
  have "createKeysAsNeeded 1072915200 (Some 1072915200) keyring_until_0105 = Inr keyring_until_0105"
    by (simp add: createKeysAsNeeded_def getNextKeygen_def keyring_until_0105_def Let_def
        PUBLICATION_LATENCY_def)
  moreover have "\<not> covers keyring_until_0105 (1072915200 + PREPUBLICATION_INTERVAL)"
    by (simp add: covers_def lastValidUntil_def keyring_until_0105_def PREPUBLICATION_INTERVAL_def)
  moreover have "\<exists>kr'. createKeysAsNeeded 1072958400 (Some 1072958400) empty_keyring = Inr kr' \<and>
          lastValidUntil kr' = 1074124800 \<and>
          \<not> covers kr' (1072958400 + PREPUBLICATION_INTERVAL)"
    unfolding createKeysAsNeeded_empty_at_noon
    by (simp add: covers_def lastValidUntil_def PREPUBLICATION_INTERVAL_def)
  ultimately show ?thesis by blast
qed

subsection \<open>Conservation in the mix pool\<close>

lemma queued_append: "queued (tr @ tr') = queued tr @ queued tr'"
  by (induction tr rule: queued.induct) simp_all

lemma queued_did:
  "queued (trace (did a s)) =
     queued (trace s) @ (case a of PoolQueueObject obj \<Rightarrow> [obj] | _ \<Rightarrow> [])"
  by (cases a) (simp_all add: did_def queued_append)

lemma did_fields [simp]:
  "pool (did a s) = pool s" "nextHandle (did a s) = nextHandle s"
  "outgoing (did a s) = outgoing s" "modules (did a s) = modules s"
  by (simp_all add: did_def)

lemma held_did [simp]: "held (did a s) = held s"
  by (simp add: held_def)

lemma pool_ok_did [simp]: "pool_ok (did a s) = pool_ok s"
  by (simp add: pool_ok_def)

lemma queueObject_conserves:
  assumes "pool_ok s"
  shows "pool_ok (snd (queueObject obj s)) \<and>
         held (snd (queueObject obj s)) + mset (queued (trace s)) =
         held s + mset (queued (trace (snd (queueObject obj s))))"
proof (cases obj)
  case (ObsoleteTuple t)
  then show ?thesis using assms by (simp add: queueObject_def isDelivery_def)
next
  case (DeliveryPacket c)
  have "list_all (\<lambda>(h, obj). h < Suc (nextHandle s) \<and> \<not> is_obsolete obj) (pool s)"
    using assms by (auto simp: pool_ok_def list_all_iff)
  moreover have "nextHandle s \<notin> fst ` set (pool s)"
    using assms by (auto simp: pool_ok_def list_all_iff)
  ultimately show ?thesis
    using assms DeliveryPacket
    by (simp add: queueObject_def isDelivery_def queue_queueObject_def queued_did held_def
        pool_ok_def is_obsolete_def)
next
  case (RelayedPacket c)
  have "list_all (\<lambda>(h, obj). h < Suc (nextHandle s) \<and> \<not> is_obsolete obj) (pool s)"
    using assms by (auto simp: pool_ok_def list_all_iff)
  moreover have "nextHandle s \<notin> fst ` set (pool s)"
    using assms by (auto simp: pool_ok_def list_all_iff)
  ultimately show ?thesis
    using assms RelayedPacket
    by (simp add: queueObject_def isDelivery_def queue_queueObject_def queued_did held_def
        pool_ok_def is_obsolete_def)
qed

lemma remove_entry_mset:
  "distinct (map fst xs) \<Longrightarrow> map_of xs h = Some obj \<Longrightarrow>
   mset (map snd xs) = add_mset obj (mset (map snd (filter (\<lambda>(h', obj'). h' \<noteq> h) xs)))"
proof (induction xs)
  case Nil
  then show ?case by simp
next
  case (Cons x xs)
  obtain h0 obj0 where x: "x = (h0, obj0)" by (cases x)
  show ?case
  proof (cases "h0 = h")
    case True
    with Cons.prems x have "obj0 = obj" by simp
    moreover from True Cons.prems x have "h \<notin> fst ` set xs" by simp
    then have "filter (\<lambda>(h', obj'). h' \<noteq> h) xs = xs"
      by (induction xs) (auto simp: image_iff)
    ultimately show ?thesis using True x by simp
  next
    case False
    with Cons x show ?thesis by simp
  qed
qed

lemma remove_entry_ok:
  "pool_ok s \<Longrightarrow> pool_ok (s \<lparr> pool := filter P (pool s) \<rparr>)"
  by (auto simp: pool_ok_def list_all_iff distinct_map_filter)

lemma mix_step_conserves:
  assumes ok: "pool_ok s" and get: "queue_getObject s h = Inr packet0"
  defines "s1 \<equiv> (case packet0 of
                   ObsoleteTuple t \<Rightarrow> s
                 | DeliveryPacket c \<Rightarrow> queueDecodedMessage packet0 s
                 | RelayedPacket c \<Rightarrow> queueDeliveryMessage packet0 s)"
  shows "pool_ok (queue_removeMessage h s1) \<and> held (queue_removeMessage h s1) = held s \<and>
         queued (trace (queue_removeMessage h s1)) = queued (trace s)"
proof -
  from get have m: "map_of (pool s) h = Some packet0"
    by (simp add: queue_getObject_def split: option.splits)
  then have "(h, packet0) \<in> set (pool s)" by (rule map_of_SomeD)
  with ok have notobs: "\<not> is_obsolete packet0" by (auto simp: pool_ok_def list_all_iff)
  have d: "distinct (map fst (pool s))" using ok by (simp add: pool_ok_def)
  have ms: "mset (map snd (pool s)) =
      add_mset packet0 (mset (map snd (filter (\<lambda>(h', obj'). h' \<noteq> h) (pool s))))"
    by (rule remove_entry_mset [OF d m])
  show ?thesis
  proof (cases packet0)
    case (ObsoleteTuple t)
    with notobs show ?thesis by (simp add: is_obsolete_def)
  next
    case (DeliveryPacket c)
    then have s1: "s1 = queueDecodedMessage packet0 s" by (simp add: s1_def)
    have "pool_ok (queue_removeMessage h s1)"
      using remove_entry_ok [OF ok, of "\<lambda>(h', obj'). h' \<noteq> h"]
      by (simp add: s1 queue_removeMessage_def queueDecodedMessage_def pool_ok_def)
    moreover have "held (queue_removeMessage h s1) = held s"
      using ms by (simp add: s1 queue_removeMessage_def queueDecodedMessage_def held_def)
    moreover have "queued (trace (queue_removeMessage h s1)) = queued (trace s)"
      by (simp add: s1 queue_removeMessage_def queueDecodedMessage_def did_def queued_append)
    ultimately show ?thesis by simp
  next
    case (RelayedPacket c)
    then have s1: "s1 = queueDeliveryMessage packet0 s" by (simp add: s1_def)
    have "pool_ok (queue_removeMessage h s1)"
      using remove_entry_ok [OF ok, of "\<lambda>(h', obj'). h' \<noteq> h"]
      by (simp add: s1 queue_removeMessage_def queueDeliveryMessage_def pool_ok_def)
    moreover have "held (queue_removeMessage h s1) = held s"
      using ms by (simp add: s1 queue_removeMessage_def queueDeliveryMessage_def held_def)
    moreover have "queued (trace (queue_removeMessage h s1)) = queued (trace s)"
      by (simp add: s1 queue_removeMessage_def queueDeliveryMessage_def did_def queued_append)
    ultimately show ?thesis by simp
  qed
qed

lemma mix_loop_conserves:
  "pool_ok s \<Longrightarrow>
   pool_ok (snd (mix_loop handles s)) \<and> held (snd (mix_loop handles s)) = held s \<and>
   queued (trace (snd (mix_loop handles s))) = queued (trace s)"
proof (induction handles arbitrary: s)
  case Nil
  then show ?case by simp
next
  case (Cons h handles)
  show ?case
  proof (cases "queue_getObject s h")
    case (Inl e)
    with Cons.prems show ?thesis by simp
  next
    case (Inr packet0)
    let ?s1 = "(case packet0 of
                   ObsoleteTuple t \<Rightarrow> s
                 | DeliveryPacket c \<Rightarrow> queueDecodedMessage packet0 s
                 | RelayedPacket c \<Rightarrow> queueDeliveryMessage packet0 s)"
    have step: "pool_ok (queue_removeMessage h ?s1) \<and> held (queue_removeMessage h ?s1) = held s \<and>
         queued (trace (queue_removeMessage h ?s1)) = queued (trace s)"
      by (rule mix_step_conserves [OF Cons.prems Inr])
    then have "pool_ok (queue_removeMessage h ?s1)" by simp
    from Cons.IH [OF this] step Inr show ?thesis by (simp add: Let_def)
  qed
qed

lemma mix_conserves:
  "pool_ok s \<Longrightarrow>
   pool_ok (snd (mix batch s)) \<and> held (snd (mix batch s)) = held s \<and>
   queued (trace (snd (mix batch s))) = queued (trace s)"
  using mix_loop_conserves [of "did (GetBatch batch) s" batch]
  by (simp add: mix_def queued_did)

lemma run_operations_conserves:
  "pool_ok s \<Longrightarrow>
   pool_ok (snd (run_operations ops s)) \<and>
   held (snd (run_operations ops s)) + mset (queued (trace s)) =
   held s + mset (queued (trace (snd (run_operations ops s))))"
proof (induction ops arbitrary: s)
  case Nil
  then show ?case by simp
next
  case (Cons op ops)
  show ?case
  proof (cases op)
    case (QueueObject obj)
    let ?s' = "snd (queueObject obj s)"
    have q: "pool_ok ?s' \<and> held ?s' + mset (queued (trace s)) = held s + mset (queued (trace ?s'))"
      by (rule queueObject_conserves [OF Cons.prems])
    then have "pool_ok ?s'" by simp
    from Cons.IH [OF this] have ih:
      "pool_ok (snd (run_operations ops ?s')) \<and>
       held (snd (run_operations ops ?s')) + mset (queued (trace ?s')) =
       held ?s' + mset (queued (trace (snd (run_operations ops ?s'))))" .
    let ?R = "snd (run_operations ops ?s')"
    have q2: "held ?s' + mset (queued (trace s)) = held s + mset (queued (trace ?s'))"
      using q by simp
    have ih2: "held ?R + mset (queued (trace ?s')) = held ?s' + mset (queued (trace ?R))"
      using ih by simp
    have "(held ?R + mset (queued (trace s))) + (held ?s' + mset (queued (trace ?s'))) =
          (held ?R + mset (queued (trace ?s'))) + (held ?s' + mset (queued (trace s)))"
      by (simp only: ac_simps)
    also have "\<dots> = (held ?s' + mset (queued (trace ?R))) + (held s + mset (queued (trace ?s')))"
      by (simp only: q2 ih2)
    also have "\<dots> = (held s + mset (queued (trace ?R))) + (held ?s' + mset (queued (trace ?s')))"
      by (simp only: ac_simps)
    finally have "held ?R + mset (queued (trace s)) = held s + mset (queued (trace ?R))"
      by (simp only: add_right_cancel)
    with ih QueueObject show ?thesis by simp
  next
    case (MixTick batch)
    obtain r s' where m: "mix batch s = (r, s')" by (cases "mix batch s")
    have c: "pool_ok s' \<and> held s' = held s \<and> queued (trace s') = queued (trace s)"
      using mix_conserves [OF Cons.prems, of batch] m by simp
    show ?thesis
    proof (cases r)
      case None
      with m MixTick c Cons.IH [of s'] show ?thesis by simp
    next
      case (Some e)
      with m MixTick c show ?thesis by simp
    qed
  qed
qed

text \<open>
  C2. Across any sequence of \<^verbatim>\<open>queueObject\<close> calls and mix ticks, from a pool whose
  entries came in through \<^verbatim>\<open>queueObject\<close>, the objects that entered the pool are the
  objects dispatched out of it, to the outgoing queue or to the module manager,
  together with the objects still in the pool, as multisets: what was there and
  what has entered since is what is there and what had entered before. From a
  fresh server, the objects that entered are those in the pool, in the outgoing
  queue and in the module manager.
\<close>

theorem mix_pool_conservation:
  "(pool_ok s \<longrightarrow>
      held (snd (run_operations ops s)) + mset (queued (trace s)) =
      held s + mset (queued (trace (snd (run_operations ops s))))) \<and>
   mset (queued (trace (snd (run_operations ops fresh_server)))) =
     mset (map snd (pool (snd (run_operations ops fresh_server)))) +
     mset (outgoing (snd (run_operations ops fresh_server))) +
     mset (modules (snd (run_operations ops fresh_server)))"
proof -
  have "pool_ok fresh_server" by (simp add: pool_ok_def fresh_server_def)
  from run_operations_conserves [OF this, of ops]
  have "held (snd (run_operations ops fresh_server)) =
          mset (queued (trace (snd (run_operations ops fresh_server))))"
    by (simp add: held_def fresh_server_def)
  then show ?thesis
    using run_operations_conserves [of s ops] by (simp add: held_def)
qed

lemma run_example_operations:
  "run_operations example_operations fresh_server =
     (Some IOError,
      \<lparr> pool = [(3, RelayedPacket ''d'')], nextHandle = 4,
        outgoing = [RelayedPacket ''c'', RelayedPacket ''a''],
        modules = [DeliveryPacket ''b''],
        trace =
          [PoolQueueObject (RelayedPacket ''a''), PoolQueueObject (DeliveryPacket ''b''),
           PoolQueueObject (RelayedPacket ''c''), GetBatch [2, 0],
           QueueDeliveryMessage (RelayedPacket ''c''), RemoveMessage 2,
           QueueDeliveryMessage (RelayedPacket ''a''), RemoveMessage 0,
           PoolQueueObject (RelayedPacket ''d''), GetBatch [1, 7],
           QueueDecodedMessage (DeliveryPacket ''b''), RemoveMessage 1] \<rparr>)"
  by (simp add: example_operations_def fresh_server_def queueObject_def isDelivery_def
      queue_queueObject_def did_def mix_def queue_count_def queue_getObject_def
      queueDecodedMessage_def queueDeliveryMessage_def queue_removeMessage_def Let_def)

text \<open>
  The theorem at the example: four objects are offered, the tuple is refused, the
  first tick sends two packets to the outgoing queue, the second one sends a packet
  to the module manager and then fails on a handle that names nothing.
\<close>

theorem mix_pool_conservation_witness:
  "pool_ok fresh_server \<and>
   held (snd (run_operations example_operations fresh_server)) +
     mset (queued (trace fresh_server)) =
   held fresh_server +
     mset (queued (trace (snd (run_operations example_operations fresh_server)))) \<and>
   mset (queued (trace (snd (run_operations example_operations fresh_server)))) =
     {# RelayedPacket ''a'', DeliveryPacket ''b'', RelayedPacket ''c'', RelayedPacket ''d'' #} \<and>
   pool (snd (run_operations example_operations fresh_server)) = [(3, RelayedPacket ''d'')] \<and>
   outgoing (snd (run_operations example_operations fresh_server)) =
     [RelayedPacket ''c'', RelayedPacket ''a''] \<and>
   modules (snd (run_operations example_operations fresh_server)) = [DeliveryPacket ''b'']"
proof -
  have ok: "pool_ok fresh_server" by (simp add: pool_ok_def fresh_server_def)
  have "held (snd (run_operations example_operations fresh_server)) +
     mset (queued (trace fresh_server)) =
   held fresh_server +
     mset (queued (trace (snd (run_operations example_operations fresh_server))))"
    by (rule mix_pool_conservation [THEN conjunct1, THEN mp, OF ok])
  with ok show ?thesis by (simp add: run_example_operations)
qed

text \<open>
  The pool must not hold an entry in the obsolete format, which does not come in
  through \<^verbatim>\<open>queueObject\<close>: \<^verbatim>\<open>mix\<close> removes such an entry and hands it to nobody.
\<close>

lemma mix_drops_obsolete:
  "mix [0] (fresh_server \<lparr> pool := [(0, ObsoleteTuple ''t'')], nextHandle := 1 \<rparr>) =
     (None, fresh_server \<lparr> pool := [], nextHandle := 1,
                             trace := [GetBatch [0], RemoveMessage 0] \<rparr>)"
  by (simp add: fresh_server_def mix_def queue_count_def queue_getObject_def
      queue_removeMessage_def did_def)

subsection \<open>The MIX event\<close>

lemma to_modules_append: "to_modules (tr @ tr') = to_modules tr @ to_modules tr'"
  by (induction tr rule: to_modules.induct) simp_all

lemma to_outgoing_append: "to_outgoing (tr @ tr') = to_outgoing tr @ to_outgoing tr'"
  by (induction tr rule: to_outgoing.induct) simp_all

lemma process_calls_append: "process_calls (tr @ tr') = process_calls tr @ process_calls tr'"
  by (induction tr rule: process_calls.induct) simp_all

lemma mix_effect_refl: "mix_effect s s []"
  by (simp add: mix_effect_def)

lemma mix_effect_trans:
  "mix_effect s s' acts \<Longrightarrow> mix_effect s' s'' acts' \<Longrightarrow> mix_effect s s'' (acts @ acts')"
  by (simp add: mix_effect_def to_modules_append to_outgoing_append)

lemma mix_step_effect:
  "\<exists>acts. mix_effect s
     (queue_removeMessage h
        (case packet0 of
           ObsoleteTuple t \<Rightarrow> s
         | DeliveryPacket c \<Rightarrow> queueDecodedMessage packet0 s
         | RelayedPacket c \<Rightarrow> queueDeliveryMessage packet0 s)) acts"
proof (cases packet0)
  case (ObsoleteTuple t)
  then have "mix_effect s (queue_removeMessage h (case packet0 of
           ObsoleteTuple t \<Rightarrow> s
         | DeliveryPacket c \<Rightarrow> queueDecodedMessage packet0 s
         | RelayedPacket c \<Rightarrow> queueDeliveryMessage packet0 s)) [RemoveMessage h]"
    by (simp add: mix_effect_def queue_removeMessage_def did_def is_mix_action_def)
  then show ?thesis ..
next
  case (DeliveryPacket c)
  then have "mix_effect s (queue_removeMessage h (case packet0 of
           ObsoleteTuple t \<Rightarrow> s
         | DeliveryPacket c \<Rightarrow> queueDecodedMessage packet0 s
         | RelayedPacket c \<Rightarrow> queueDeliveryMessage packet0 s))
         [QueueDecodedMessage packet0, RemoveMessage h]"
    by (simp add: mix_effect_def queue_removeMessage_def queueDecodedMessage_def did_def
        is_mix_action_def)
  then show ?thesis ..
next
  case (RelayedPacket c)
  then have "mix_effect s (queue_removeMessage h (case packet0 of
           ObsoleteTuple t \<Rightarrow> s
         | DeliveryPacket c \<Rightarrow> queueDecodedMessage packet0 s
         | RelayedPacket c \<Rightarrow> queueDeliveryMessage packet0 s))
         [QueueDeliveryMessage packet0, RemoveMessage h]"
    by (simp add: mix_effect_def queue_removeMessage_def queueDeliveryMessage_def did_def
        is_mix_action_def)
  then show ?thesis ..
qed

lemma mix_loop_effect: "\<exists>acts. mix_effect s (snd (mix_loop handles s)) acts"
proof (induction handles arbitrary: s)
  case Nil
  show ?case using mix_effect_refl by auto
next
  case (Cons h handles)
  show ?case
  proof (cases "queue_getObject s h")
    case (Inl e)
    then show ?thesis using mix_effect_refl by auto
  next
    case (Inr packet0)
    let ?s2 = "queue_removeMessage h
        (case packet0 of
           ObsoleteTuple t \<Rightarrow> s
         | DeliveryPacket c \<Rightarrow> queueDecodedMessage packet0 s
         | RelayedPacket c \<Rightarrow> queueDeliveryMessage packet0 s)"
    obtain a1 where a1: "mix_effect s ?s2 a1" using mix_step_effect by blast
    obtain a2 where a2: "mix_effect ?s2 (snd (mix_loop handles ?s2)) a2" using Cons.IH by blast
    have "mix_effect s (snd (mix_loop handles ?s2)) (a1 @ a2)"
      by (rule mix_effect_trans [OF a1 a2])
    with Inr show ?thesis by (auto simp: Let_def)
  qed
qed

lemma mix_effect_exists: "\<exists>acts. mix_effect s (snd (mix b s)) acts"
proof (cases "queue_count s = 0")
  case True
  then show ?thesis using mix_effect_refl by (auto simp: mix_def)
next
  case False
  have g: "mix_effect s (did (GetBatch b) s) [GetBatch b]"
    by (simp add: mix_effect_def did_def is_mix_action_def)
  obtain a2 where a2: "mix_effect (did (GetBatch b) s) (snd (mix_loop b (did (GetBatch b) s))) a2"
    using mix_loop_effect by blast
  have "mix_effect s (snd (mix_loop b (did (GetBatch b) s))) ([GetBatch b] @ a2)"
    by (rule mix_effect_trans [OF g a2])
  with False show ?thesis by (auto simp: mix_def)
qed


lemma handleEvent_MIX_synced:
  assumes "syncLogsResult env = None"
  shows "\<exists>acts.
           trace (snd (snd (handleEvent env MIX now evs s))) =
             trace s @ [PoolLock, SyncLogs] @ acts @ [PoolUnlock] @
               (case fst (handleEvent env MIX now evs s) of
                  None \<Rightarrow> [OutgoingSendReady, ModulesSendReady]
                | Some e \<Rightarrow> []) \<and>
           list_all is_mix_action acts \<and>
           modules (snd (snd (handleEvent env MIX now evs s))) = modules s @ to_modules acts \<and>
           outgoing (snd (snd (handleEvent env MIX now evs s))) = outgoing s @ to_outgoing acts"
proof -
  let ?s2 = "did SyncLogs (did PoolLock s)"
  obtain r s3 where m: "mix (chosenBatch env) ?s2 = (r, s3)" by (cases "mix (chosenBatch env) ?s2")
  obtain acts where "mix_effect ?s2 (snd (mix (chosenBatch env) ?s2)) acts"
    using mix_effect_exists by blast
  with m have eff: "trace s3 = trace s @ [PoolLock, SyncLogs] @ acts"
    "list_all is_mix_action acts" "modules s3 = modules s @ to_modules acts"
    "outgoing s3 = outgoing s @ to_outgoing acts"
    by (simp_all add: mix_effect_def did_def)
  show ?thesis
  proof (cases r)
    case None
    with assms m eff show ?thesis
      by (intro exI [of _ acts]) (simp add: handleEvent_def Let_def did_def)
  next
    case (Some e)
    with assms m eff show ?thesis
      by (intro exI [of _ acts]) (simp add: handleEvent_def Let_def did_def)
  qed
qed

lemma handleEvent_MIX_sync_raised:
  assumes "syncLogsResult env = Some e"
  shows "handleEvent env MIX now evs s =
           (Some e, evs, s \<lparr> trace := trace s @ [PoolLock, SyncLogsRaised, PoolUnlock] \<rparr>)"
  using assms by (simp add: handleEvent_def Let_def did_def)

text \<open>
  C1. When a MIX event is handled and \<^verbatim>\<open>syncLogs\<close> returns, the trace grows by: the lock
  of the mix pool, the sync of the replay logs, then the actions of \<^verbatim>\<open>mix\<close> (the choice
  of the batch, the hand-overs and the removals), then the unlock, and, unless \<^verbatim>\<open>mix\<close>
  raised, the two send cycles. What the outgoing queue and the module manager have
  received is what the hand-overs among these actions say, so nothing is handed
  over before the sync has returned, and the lock is held from before the sync
  until after the last action of \<^verbatim>\<open>mix\<close>. When \<^verbatim>\<open>syncLogs\<close> raises, the pool is unlocked,
  nothing is selected or handed over, and the exception leaves the handler.
\<close>

theorem mix_event_order:
  "(syncLogsResult env = None \<longrightarrow>
      (\<exists>acts.
         trace (snd (snd (handleEvent env MIX now evs s))) =
           trace s @ [PoolLock, SyncLogs] @ acts @ [PoolUnlock] @
             (case fst (handleEvent env MIX now evs s) of
                None \<Rightarrow> [OutgoingSendReady, ModulesSendReady]
              | Some e \<Rightarrow> []) \<and>
         list_all is_mix_action acts \<and>
         modules (snd (snd (handleEvent env MIX now evs s))) = modules s @ to_modules acts \<and>
         outgoing (snd (snd (handleEvent env MIX now evs s))) = outgoing s @ to_outgoing acts)) \<and>
   (\<forall>e. syncLogsResult env = Some e \<longrightarrow>
      handleEvent env MIX now evs s =
        (Some e, evs, s \<lparr> trace := trace s @ [PoolLock, SyncLogsRaised, PoolUnlock] \<rparr>))"
  using handleEvent_MIX_synced [of env now evs s] handleEvent_MIX_sync_raised [of env _ now evs s]
  by blast

lemma handle_mix_all:
  "handleEvent mix_all MIX 100 [(600, SHRED)] two_in_pool =
     (None, [(600, SHRED), (1900, MIX)],
      \<lparr> pool = [], nextHandle = 2, outgoing = [RelayedPacket ''a''],
        modules = [DeliveryPacket ''b''],
        trace = [PoolLock, SyncLogs, GetBatch [0, 1],
                 QueueDeliveryMessage (RelayedPacket ''a''), RemoveMessage 0,
                 QueueDecodedMessage (DeliveryPacket ''b''), RemoveMessage 1,
                 PoolUnlock, OutgoingSendReady, ModulesSendReady] \<rparr>)"
  by (simp add: handleEvent_def mix_all_def two_in_pool_def Let_def did_def mix_def
      queue_count_def queue_getObject_def queueDecodedMessage_def queueDeliveryMessage_def
      queue_removeMessage_def insort_event_def event_rank_def)

text \<open>
  The theorem at a pool of two packets: with the batch of both, the trace is lock,
  sync, choice of the batch, hand-over and removal of each packet, unlock, and the
  two send cycles; when \<^verbatim>\<open>syncLogs\<close> raises, it is lock, the failed sync, unlock.
\<close>

theorem mix_event_order_witness:
  "syncLogsResult mix_all = None \<and>
   (\<exists>acts.
      trace (snd (snd (handleEvent mix_all MIX 100 [(600, SHRED)] two_in_pool))) =
        trace two_in_pool @ [PoolLock, SyncLogs] @ acts @ [PoolUnlock] @
          (case fst (handleEvent mix_all MIX 100 [(600, SHRED)] two_in_pool) of
             None \<Rightarrow> [OutgoingSendReady, ModulesSendReady]
           | Some e \<Rightarrow> []) \<and>
      list_all is_mix_action acts \<and>
      modules (snd (snd (handleEvent mix_all MIX 100 [(600, SHRED)] two_in_pool))) =
        modules two_in_pool @ to_modules acts \<and>
      outgoing (snd (snd (handleEvent mix_all MIX 100 [(600, SHRED)] two_in_pool))) =
        outgoing two_in_pool @ to_outgoing acts) \<and>
   trace (snd (snd (handleEvent mix_all MIX 100 [(600, SHRED)] two_in_pool))) =
     [PoolLock, SyncLogs, GetBatch [0, 1],
      QueueDeliveryMessage (RelayedPacket ''a''), RemoveMessage 0,
      QueueDecodedMessage (DeliveryPacket ''b''), RemoveMessage 1,
      PoolUnlock, OutgoingSendReady, ModulesSendReady] \<and>
   syncLogsResult sync_fails = Some IOError \<and>
   handleEvent sync_fails MIX 100 [(600, SHRED)] two_in_pool =
     (Some IOError, [(600, SHRED)],
      two_in_pool \<lparr> trace := trace two_in_pool @ [PoolLock, SyncLogsRaised, PoolUnlock] \<rparr>)"
proof -
  have a: "syncLogsResult mix_all = None" by (simp add: mix_all_def)
  have b: "syncLogsResult sync_fails = Some IOError" by (simp add: sync_fails_def)
  note t1 = mix_event_order [of mix_all 100 "[(600, SHRED)]" two_in_pool,
      THEN conjunct1, THEN mp, OF a]
  note t2 = mix_event_order [of sync_fails 100 "[(600, SHRED)]" two_in_pool,
      THEN conjunct2, THEN spec, THEN mp, OF b]
  have c: "trace (snd (snd (handleEvent mix_all MIX 100 [(600, SHRED)] two_in_pool))) =
     [PoolLock, SyncLogs, GetBatch [0, 1],
      QueueDeliveryMessage (RelayedPacket ''a''), RemoveMessage 0,
      QueueDecodedMessage (DeliveryPacket ''b''), RemoveMessage 1,
      PoolUnlock, OutgoingSendReady, ModulesSendReady]"
    by (simp add: handle_mix_all)
  from a b t1 t2 c show ?thesis by (intro conjI) assumption+
qed

subsection \<open>The wait loop\<close>

lemma waitForEvent_iteration:
  assumes "0 < nextEventTime - now"
  shows "waitForEvent nextEventTime now (ob # obs) s =
     (if obsSTOPPING ob then
        (ReturnedStopping, now,
         s \<lparr> trace := trace s @ [MMTPProcess 2, LogInfo ''Caught sigterm; shutting down.''] \<rparr>)
      else if threads_alive ob then
        waitForEvent nextEventTime (obsTime ob) obs
          (s \<lparr> trace := trace s @ MMTPProcess 2 # hup_actions ob \<rparr>)
      else
        (ReturnedThreadHalted, now,
         s \<lparr> trace := trace s @ MMTPProcess 2 # hup_actions ob @
                [LogFatal ''One of our threads has halted; shutting down.''] \<rparr>))"
  using assms by (simp add: Let_def did_def hup_actions_def threads_alive_def)

lemma waitForEvent_due:
  assumes "nextEventTime - now \<le> 0"
  shows "waitForEvent nextEventTime now obs s = (EventDue, now, s)"
  using assms by (cases obs) (simp_all add: Let_def)

lemma process_calls_hup [simp]: "process_calls (hup_actions ob) = []"
  by (simp add: hup_actions_def)

lemma waitForEvent_process_calls:
  "\<exists>k. process_calls (trace (snd (snd (waitForEvent nextEventTime now obs s)))) =
         process_calls (trace s) @ replicate k 2"
proof (induction obs arbitrary: now s)
  case Nil
  have "process_calls (trace (snd (snd (waitForEvent nextEventTime now [] s)))) =
          process_calls (trace s) @ replicate 0 2" by simp
  then show ?case by blast
next
  case (Cons ob obs)
  show ?case
  proof (cases "0 < nextEventTime - now")
    case False
    then have "waitForEvent nextEventTime now (ob # obs) s = (EventDue, now, s)"
      using waitForEvent_due [of nextEventTime now] by simp
    then have "process_calls (trace (snd (snd (waitForEvent nextEventTime now (ob # obs) s)))) =
          process_calls (trace s) @ replicate 0 2" by simp
    then show ?thesis by blast
  next
    case True
    note it = waitForEvent_iteration [OF True, of ob obs s]
    consider (stop) "obsSTOPPING ob" | (go) "\<not> obsSTOPPING ob" "threads_alive ob"
      | (halt) "\<not> obsSTOPPING ob" "\<not> threads_alive ob" by blast
    then show ?thesis
    proof cases
      case stop
      with it have "process_calls (trace (snd (snd (waitForEvent nextEventTime now (ob # obs) s)))) =
          process_calls (trace s) @ replicate (Suc 0) 2"
        by (simp add: process_calls_append)
      then show ?thesis by blast
    next
      case halt
      with it have "process_calls (trace (snd (snd (waitForEvent nextEventTime now (ob # obs) s)))) =
          process_calls (trace s) @ replicate (Suc 0) 2"
        by (simp add: process_calls_append)
      then show ?thesis by blast
    next
      case go
      let ?s2 = "s \<lparr> trace := trace s @ MMTPProcess 2 # hup_actions ob \<rparr>"
      obtain k where k: "process_calls (trace (snd (snd (waitForEvent nextEventTime (obsTime ob) obs ?s2)))) =
         process_calls (trace ?s2) @ replicate k 2"
        using Cons.IH by blast
      have "process_calls (trace ?s2) = process_calls (trace s) @ [2]"
        by (simp add: process_calls_append)
      with k go it have "process_calls (trace (snd (snd (waitForEvent nextEventTime now (ob # obs) s)))) =
          process_calls (trace s) @ replicate (Suc k) 2"
        by (simp del: waitForEvent.simps)
      then show ?thesis by blast
    qed
  qed
qed

text \<open>
  C5, as the code has it. In every turn of the wait loop, entered while
  \<open>timeLeft > 0\<close>, the scheduler calls the transport's \<^verbatim>\<open>process\<close> with the fixed timeout
  of 2 seconds, whatever \<open>timeLeft\<close> is; then it checks \<^verbatim>\<open>STOPPING\<close> (and returns if it is
  set) and \<^verbatim>\<open>GOT_HUP\<close> (and resets the logs if it is set); then it checks that the
  threads are alive, and logs a fatal error and returns if one has halted;
  otherwise it reads the clock and goes on. Every call of \<^verbatim>\<open>process\<close> in the loop has
  the timeout 2.
\<close>

theorem waitForEvent_turn:
  "(0 < nextEventTime - now \<longrightarrow>
      waitForEvent nextEventTime now (ob # obs) s =
        (if obsSTOPPING ob then
           (ReturnedStopping, now,
            s \<lparr> trace := trace s @
                   [MMTPProcess 2, LogInfo ''Caught sigterm; shutting down.''] \<rparr>)
         else if threads_alive ob then
           waitForEvent nextEventTime (obsTime ob) obs
             (s \<lparr> trace := trace s @ MMTPProcess 2 # hup_actions ob \<rparr>)
         else
           (ReturnedThreadHalted, now,
            s \<lparr> trace := trace s @ MMTPProcess 2 # hup_actions ob @
                   [LogFatal ''One of our threads has halted; shutting down.''] \<rparr>))) \<and>
   (\<exists>k. process_calls (trace (snd (snd (waitForEvent nextEventTime now obs' s)))) =
          process_calls (trace s) @ replicate k 2)"
  using waitForEvent_iteration [of nextEventTime now ob obs s]
    waitForEvent_process_calls [of nextEventTime now obs' s]
  by blast

text \<open>
  The theorem one second before an event: \<^verbatim>\<open>process\<close> is called once, with the timeout
  2, nothing has happened, the clock then reads 2 and the event is due.
\<close>

theorem waitForEvent_turn_witness:
  "(0::int) < 1 - 0 \<and>
   waitForEvent 1 0 [quiet_turn] fresh_server =
     (EventDue, 2, fresh_server \<lparr> trace := [MMTPProcess 2] \<rparr>)"
proof -
  have a: "(0::int) < 1 - 0" by simp
  have "waitForEvent 1 0 [quiet_turn] fresh_server =
        waitForEvent 1 (obsTime quiet_turn) []
          (fresh_server \<lparr> trace := trace fresh_server @ MMTPProcess 2 # hup_actions quiet_turn \<rparr>)"
    using waitForEvent_turn [of 1 0 quiet_turn "[]" fresh_server, THEN conjunct1, THEN mp, OF a]
    by (simp add: quiet_turn_def threads_alive_def)
  then show ?thesis
    by (simp add: quiet_turn_def hup_actions_def fresh_server_def)
qed

text \<open>
  C5, as stated, fails: one second before the event, the timeout of the
  specification is \<open>min(1, 2) = 1\<close>, and \<^verbatim>\<open>process\<close> is called with 2.
\<close>

theorem waitForEvent_timeout_counterexample:
  "spec_timeout (1 - 0) = 1 \<and>
   process_calls (trace (snd (snd (waitForEvent 1 0 [quiet_turn] fresh_server)))) = [2]"
  by (simp add: spec_timeout_def quiet_turn_def fresh_server_def did_def Let_def)

end
